theory Spec2Isabelle
  imports Main
begin

section \<open>The ctree of a decompiled function\<close>

text \<open>
  CrowdDetox.cpp works on the ctree that the Hex-Rays decompiler hands to the plugin. The
  declarations of that tree live in hexrays.hpp, which is not part of the repository. The
  operators below are the ones the plugin tests by name; \<open>cot_other\<close> stands for every other
  expression operator, \<open>cit_switch\<close> for the remaining compound statement.
\<close>

datatype ctype_t =
    cot_empty | cot_call | cot_helper | cot_var | cot_obj | cot_other
  | cit_empty | cit_block | cit_expr | cit_if | cit_for | cit_while | cit_do | cit_switch
  | cit_break | cit_continue | cit_return | cit_goto | cit_asm

text \<open>
  The fields of \<open>citem_t\<close>, \<open>cexpr_t\<close> and \<open>cinsn_t\<close> that the plugin reads or writes.
  \<open>addr\<close> is the address of the item in memory: the plugin keeps \<open>citem_t*\<close> pointers in its
  vectors and compares them, so the address is the identity of an item. \<open>type_line\<close> is what
  \<open>print_type_to_one_line\<close> renders for the type of the expression (\<open>None\<close> when the result
  is not \<open>T_NORMAL\<close>), \<open>print1\<close> is the text that \<open>print1\<close> writes for the item (empty when
  it returns 0), \<open>goto_label\<close> is \<open>cgoto->label_num\<close>, \<open>v_idx\<close> is \<open>v.idx\<close>.
\<close>

record citem_hdr =
  addr :: nat
  op :: ctype_t
  ea :: nat
  label_num :: int
  index :: int
  v_idx :: nat
  type_line :: "string option"
  print1 :: string
  goto_label :: int

text \<open>
  An item owns its operands and sub-statements. They are kept as one ordered list, in the
  order in which the tree is traversed:
  \<^item> \<open>cit_block\<close>: the statements of the block;
  \<^item> \<open>cit_expr\<close>: the expression;
  \<^item> \<open>cit_if\<close>: \<open>expr\<close>, \<open>ithen\<close> and, when present, \<open>ielse\<close>;
  \<^item> \<open>cit_for\<close>: \<open>init\<close>, \<open>expr\<close>, \<open>step\<close>, \<open>body\<close>;
  \<^item> \<open>cit_while\<close>: \<open>expr\<close>, \<open>body\<close>;
  \<^item> \<open>cit_do\<close>: \<open>body\<close>, \<open>expr\<close>;
  \<^item> \<open>cit_return\<close>: \<open>expr\<close> (a return without value has no operand);
  \<^item> \<open>cot_call\<close>: the callee \<open>x\<close>, then the arguments;
  \<^item> any other expression: its operands.
\<close>

datatype citem_t = Item (hdr: citem_hdr) (kids: "citem_t list")

abbreviation item_addr :: "citem_t \<Rightarrow> nat" where
  "item_addr t \<equiv> addr (hdr t)"

abbreviation item_op :: "citem_t \<Rightarrow> ctype_t" where
  "item_op t \<equiv> op (hdr t)"

text \<open>\<open>citem_t::is_expr\<close>: the operator is one of the \<open>cot_\<close> operators.\<close>

definition is_expr :: "citem_t \<Rightarrow> bool" where
  "is_expr t = (item_op t \<in> {cot_empty, cot_call, cot_helper, cot_var, cot_obj, cot_other})"

text \<open>All items of a tree, in the order of a traversal (an item before its children).\<close>

fun items :: "citem_t \<Rightarrow> citem_t list" where
  "items (Item h ks) = Item h ks # concat (map items ks)"

definition addrs :: "citem_t \<Rightarrow> nat list" where
  "addrs t = map item_addr (items t)"

text \<open>
  The path from the item with address \<open>a\<close> up to the root: the item first, the root last;
  empty when the tree has no such item. The search is the traversal's: the first item found
  with that address.
\<close>

fun path_to :: "nat \<Rightarrow> citem_t \<Rightarrow> citem_t list" where
  "path_to a (Item h ks) =
     (if addr h = a then [Item h ks]
      else (case filter (\<lambda>p. p \<noteq> []) (map (path_to a) ks) of
              [] \<Rightarrow> []
            | p # _ \<Rightarrow> p @ [Item h ks]))"

text \<open>
  Modelled from the spec: \<open>citem_t::find_parent_of\<close> of hexrays.hpp. No item stores its
  parent; the parent is found by a search from the root.
\<close>

definition find_parent_of :: "citem_t \<Rightarrow> nat \<Rightarrow> citem_t option" where
  "find_parent_of root a =
     (case path_to a root of x # p # _ \<Rightarrow> Some p | _ \<Rightarrow> None)"

text \<open>
  The items that the loop \<open>p = find_parent_of(p)\<close> runs through when it starts at the item
  with address \<open>a\<close>, nearest first. The source assumes that the graph is a tree in which no
  item has more than one parent; on a tree the loop follows the path to the root.
\<close>

definition ancestors :: "citem_t \<Rightarrow> nat \<Rightarrow> citem_t list" where
  "ancestors root a = tl (path_to a root)"

record lvar_t =
  is_arg_var :: bool
  used :: bool

definition clear_used :: "lvar_t \<Rightarrow> lvar_t" where
  "clear_used v = v\<lparr>used := False\<rparr>"

record cfunc_t =
  body :: citem_t
  lvars :: "lvar_t list"

text \<open>
  What the plugin takes from its environment: \<open>tag_remove\<close> of the IDA kernel, and whether
  \<open>malloc\<close> of the given number of bytes returns a block.
\<close>

record env_t =
  tag_remove :: "string \<Rightarrow> string"
  malloc_ok :: "nat \<Rightarrow> bool"

section \<open>FIND_LEGIT_ITEMS_VISITOR\<close>

definition aszNonLegitHelpers :: "string list" where
  "aszNonLegitHelpers =
    [''__ROL__'', ''__ROL1__'', ''__ROL2__'', ''__ROL4__'', ''__ROL8__'',
     ''__ROR1__'', ''__ROR2__'', ''__ROR4__'', ''__ROR8__'',
     ''LOBYTE'', ''LOWORD'', ''LODWORD'', ''HIBYTE'', ''HIWORD'', ''HIDWORD'',
     ''BYTEn'', ''WORDn'',
     ''BYTE1'', ''BYTE2'', ''BYTE3'', ''BYTE4'', ''BYTE5'', ''BYTE6'', ''BYTE7'', ''BYTE8'',
     ''BYTE9'', ''BYTE10'', ''BYTE11'', ''BYTE12'', ''BYTE13'', ''BYTE14'', ''BYTE15'',
     ''WORD1'', ''WORD2'', ''WORD3'', ''WORD4'', ''WORD5'', ''WORD6'', ''WORD7'',
     ''SLOBYTE'', ''SLOWORD'', ''SLODWORD'', ''SHIBYTE'', ''SHIWORD'', ''SHIDWORD'',
     ''SBYTEn'', ''SWORDn'',
     ''SBYTE1'', ''SBYTE2'', ''SBYTE3'', ''SBYTE4'', ''SBYTE5'', ''SBYTE6'', ''SBYTE7'',
     ''SBYTE8'', ''SBYTE9'', ''SBYTE10'', ''SBYTE11'', ''SBYTE12'', ''SBYTE13'', ''SBYTE14'',
     ''SBYTE15'',
     ''SWORD1'', ''SWORD2'', ''SWORD3'', ''SWORD4'', ''SWORD5'', ''SWORD6'', ''SWORD7'',
     ''__CFSHL__'', ''__CFSHR__'', ''__CFADD__'', ''__CFSUB__'', ''__OFADD__'', ''__OFSUB__'',
     ''__RCL__'', ''__RCR__'', ''__MKCRCL__'', ''__MKCRCR__'', ''__SETP__'',
     ''__MKCSHL__'', ''__MKCSHR__'', ''__SETS__'', ''__ROR__'']"

text \<open>
  \<open>IsLegitimateCall\<close>. The callee \<open>pExpression->x\<close> is the first operand of the call. The
  loop over \<open>aszNonLegitHelpers\<close> with \<open>strcmp\<close> is membership in the list. A call item
  always has its callee; the model answers \<open>False\<close> for a call without one.
\<close>

definition IsLegitimateCall :: "env_t \<Rightarrow> citem_t \<Rightarrow> bool" where
  "IsLegitimateCall E pExpression =
     (if item_op pExpression \<noteq> cot_call then False
      else (case kids pExpression of
              [] \<Rightarrow> False
            | pCalledFunction # _ \<Rightarrow>
                if item_op pCalledFunction \<noteq> cot_helper then True
                else if length (print1 (hdr pCalledFunction)) = 0 then False
                else if tag_remove E (print1 (hdr pCalledFunction)) \<in> set aszNonLegitHelpers
                then False
                else True))"

text \<open>
  The fields of the visitor. The flag \<open>fMarkingDescendantsLegit\<close> is true exactly inside the
  nested traversals started by \<open>visit_item\<close>; the two modes are the two functions
  \<open>visit_item_marking\<close> and \<open>visit_item\<close> below. \<open>afVariableIsLegit\<close> is \<open>None\<close> for the
  null pointer.
\<close>

record fliv_t =
  fInitialized :: bool
  vectorDescendantsMarkedLegit :: "nat list"
  fNewLegitItemFound :: bool
  vectorLegitItems :: "nat list"
  afVariableIsLegit :: "bool list option"

text \<open>The state that the constructor sets up.\<close>

definition fliv_init :: fliv_t where
  "fliv_init =
     \<lparr>fInitialized = False, vectorDescendantsMarkedLegit = [], fNewLegitItemFound = False,
      vectorLegitItems = [], afVariableIsLegit = None\<rparr>"

definition Initialize :: "env_t \<Rightarrow> cfunc_t \<Rightarrow> fliv_t \<Rightarrow> bool \<times> fliv_t" where
  "Initialize E pFunction s =
     (if \<not> malloc_ok E (length (lvars pFunction))
      then (False, s\<lparr>afVariableIsLegit := None\<rparr>)
      else (True, s\<lparr>afVariableIsLegit := Some (map is_arg_var (lvars pFunction)),
                    fInitialized := True\<rparr>))"

text \<open>
  Reading and writing \<open>afVariableIsLegit[idx]\<close>. The ctree only refers to variables of the
  function, so \<open>idx\<close> is below the size of the array; outside it the C++ is undefined, and
  the model reads \<open>False\<close> and writes nothing.
\<close>

definition var_is_legit :: "fliv_t \<Rightarrow> nat \<Rightarrow> bool" where
  "var_is_legit s i =
     (case afVariableIsLegit s of None \<Rightarrow> False | Some bm \<Rightarrow> i < length bm \<and> bm ! i)"

definition set_var_legit :: "nat \<Rightarrow> fliv_t \<Rightarrow> fliv_t" where
  "set_var_legit i s =
     s\<lparr>afVariableIsLegit := map_option (\<lambda>bm. bm[i := True]) (afVariableIsLegit s)\<rparr>"

text \<open>\<open>visit_item\<close> while \<open>fMarkingDescendantsLegit\<close> is set (lines 316 to 355).\<close>

definition visit_item_marking :: "citem_t \<Rightarrow> fliv_t \<Rightarrow> fliv_t" where
  "visit_item_marking pItem s =
     (if item_addr pItem \<in> set (vectorDescendantsMarkedLegit s) then s
      else
        let s1 = (if item_op pItem = cot_var then set_var_legit (v_idx (hdr pItem)) s else s);
            s2 = (if item_addr pItem \<notin> set (vectorLegitItems s1)
                  then s1\<lparr>vectorLegitItems := vectorLegitItems s1 @ [item_addr pItem],
                          fNewLegitItemFound := True\<rparr>
                  else s1)
        in s2\<lparr>vectorDescendantsMarkedLegit :=
                 vectorDescendantsMarkedLegit s2 @ [item_addr pItem]\<rparr>)"

text \<open>
  \<open>apply_to\<close> with \<open>fMarkingDescendantsLegit\<close> set: the visitor returns 0 at every item, so
  the traversal visits the whole subtree, an item before its children.
\<close>

fun mark_descendants :: "citem_t \<Rightarrow> fliv_t \<Rightarrow> fliv_t" where
  "mark_descendants (Item h ks) s =
     fold mark_descendants ks (visit_item_marking (Item h ks) s)"

text \<open>The guard \<open>if (!vectorDescendantsMarkedLegit.has(p))\<close> around a nested traversal.\<close>

definition mark_descendants_once :: "citem_t \<Rightarrow> fliv_t \<Rightarrow> fliv_t" where
  "mark_descendants_once p s =
     (if item_addr p \<in> set (vectorDescendantsMarkedLegit s) then s else mark_descendants p s)"

fun nth_opt :: "'a list \<Rightarrow> nat \<Rightarrow> 'a option" where
  "nth_opt [] n = None"
| "nth_opt (x # xs) 0 = Some x"
| "nth_opt (x # xs) (Suc n) = nth_opt xs n"

text \<open>The \<open>switch\<close> of lines 368 to 382: the expression part of a statement.\<close>

definition governing_expr :: "citem_t \<Rightarrow> citem_t option" where
  "governing_expr pItem =
     (case item_op pItem of
        cit_if \<Rightarrow> nth_opt (kids pItem) 0
      | cit_for \<Rightarrow> nth_opt (kids pItem) 1
      | cit_while \<Rightarrow> nth_opt (kids pItem) 0
      | cit_do \<Rightarrow> nth_opt (kids pItem) 1
      | cit_return \<Rightarrow> nth_opt (kids pItem) 0
      | _ \<Rightarrow> None)"

text \<open>Lines 360 to 445: the item is already in \<open>vectorLegitItems\<close>.\<close>

definition visit_legit_item :: "citem_t \<Rightarrow> fliv_t \<Rightarrow> fliv_t" where
  "visit_legit_item pItem s =
     (case governing_expr pItem of
        None \<Rightarrow> s
      | Some pExpression \<Rightarrow>
          if item_addr pExpression \<in> set (vectorDescendantsMarkedLegit s) then s
          else
            let s1 = mark_descendants pExpression s
            in if item_op pItem = cit_for
               then
                 let s2 = (case nth_opt (kids pItem) 0 of
                             None \<Rightarrow> s1 | Some init \<Rightarrow> mark_descendants_once init s1)
                 in (case nth_opt (kids pItem) 2 of
                       None \<Rightarrow> s2 | Some step \<Rightarrow> mark_descendants_once step s2)
               else s1)"

text \<open>
  Lines 453 to 481: \<open>True\<close> when \<open>visit_item\<close> goes on to the loop over the ancestors,
  \<open>False\<close> when it returns 0 before. The second condition is written as in the source,
  with the test for \<open>cit_asm\<close> outside the negation.
\<close>

definition is_candidate :: "env_t \<Rightarrow> fliv_t \<Rightarrow> citem_t \<Rightarrow> bool" where
  "is_candidate E s pItem =
     (if item_op pItem = cot_var
      then (if \<not> var_is_legit s (v_idx (hdr pItem))
            then type_line (hdr pItem) = Some ''CPPEH_RECORD''
            else True)
      else if \<not> (item_op pItem = cot_obj \<or>
                 (item_op pItem = cot_call \<and> IsLegitimateCall E pItem) \<or>
                 item_op pItem = cit_goto \<or>
                 item_op pItem = cit_break \<or>
                 item_op pItem = cit_continue \<or>
                 item_op pItem = cit_return) \<or>
              item_op pItem = cit_asm
      then False
      else True)"

text \<open>The body of the loop over the ancestors (lines 491 to 519).\<close>

definition mark_ancestor :: "env_t \<Rightarrow> citem_t \<Rightarrow> fliv_t \<Rightarrow> fliv_t" where
  "mark_ancestor E pCurrentItem s =
     (let s1 = (if item_addr pCurrentItem \<notin> set (vectorLegitItems s)
                then s\<lparr>vectorLegitItems := vectorLegitItems s @ [item_addr pCurrentItem],
                       fNewLegitItemFound := True\<rparr>
                else s)
      in if item_op pCurrentItem = cit_expr \<or>
            (item_op pCurrentItem = cot_call \<and> IsLegitimateCall E pCurrentItem) \<or>
            item_op pCurrentItem = cit_return
         then mark_descendants_once pCurrentItem s1
         else s1)"

text \<open>
  \<open>visit_item\<close> with \<open>fMarkingDescendantsLegit\<close> clear. The result is the value returned to
  the traversal (0 to go on, 1 to stop) and the new state of the visitor.
\<close>

definition visit_item :: "env_t \<Rightarrow> cfunc_t \<Rightarrow> citem_t \<Rightarrow> fliv_t \<Rightarrow> int \<times> fliv_t" where
  "visit_item E pFunction pItem s0 =
     (case (if fInitialized s0 then (True, s0) else Initialize E pFunction s0) of
        (False, s) \<Rightarrow> (1, s)
      | (True, s) \<Rightarrow>
          if item_addr pItem \<in> set (vectorLegitItems s) then (0, visit_legit_item pItem s)
          else if \<not> is_candidate E s pItem then (0, s)
          else (0, fold (mark_ancestor E)
                     (pItem # ancestors (body pFunction) (item_addr pItem)) s))"

text \<open>\<open>apply_to\<close>: the traversal stops as soon as the visitor returns a non-zero value.\<close>

fun apply_to :: "env_t \<Rightarrow> cfunc_t \<Rightarrow> citem_t \<Rightarrow> fliv_t \<Rightarrow> int \<times> fliv_t"
  and apply_to_kids :: "env_t \<Rightarrow> cfunc_t \<Rightarrow> citem_t list \<Rightarrow> fliv_t \<Rightarrow> int \<times> fliv_t" where
  "apply_to E f (Item h ks) s =
     (case visit_item E f (Item h ks) s of
        (r, s1) \<Rightarrow> if r \<noteq> 0 then (r, s1) else apply_to_kids E f ks s1)"
| "apply_to_kids E f [] s = (0, s)"
| "apply_to_kids E f (k # ks) s =
     (case apply_to E f k s of
        (r, s1) \<Rightarrow> if r \<noteq> 0 then (r, s1) else apply_to_kids E f ks s1)"

text \<open>One pass of the loop of lines 626 to 632.\<close>

definition marking_pass :: "env_t \<Rightarrow> cfunc_t \<Rightarrow> fliv_t \<Rightarrow> fliv_t" where
  "marking_pass E f s = snd (apply_to E f (body f) (s\<lparr>fNewLegitItemFound := False\<rparr>))"

text \<open>
  The loop itself. The first component of the result counts the passes made; \<open>n\<close> is the
  number of passes made before.
\<close>

partial_function (option) marking_loop ::
  "env_t \<Rightarrow> cfunc_t \<Rightarrow> nat \<Rightarrow> fliv_t \<Rightarrow> (nat \<times> fliv_t) option" where
  "marking_loop E f n s =
     (let s1 = marking_pass E f s
      in if fNewLegitItemFound s1 then marking_loop E f (Suc n) s1 else Some (Suc n, s1))"

section \<open>PRUNE_ITEMS_VISITOR\<close>

datatype VisitingMode = Pruning | CleaningUpGotoLabels | ChangingGotos | FindingChildrenOfParent

text \<open>
  The fields of the visitor and the tree it changes in place. \<open>pCurrentParent\<close> and
  \<open>vectorChildrenOfParentBlock\<close> are set and read within one visit of an item; they are the
  arguments and the result of \<open>children_of_parent\<close> below.
\<close>

record piv_t =
  tree :: citem_t
  visitingMode :: VisitingMode
  nOldLabelNumber :: int
  nNewLabelNumber :: int
  fGotoCleaned :: bool
  fPruned :: bool

definition piv_init :: "citem_t \<Rightarrow> piv_t" where
  "piv_init t =
     \<lparr>tree = t, visitingMode = Pruning, nOldLabelNumber = - 1, nNewLabelNumber = - 1,
      fGotoCleaned = False, fPruned = False\<rparr>"

text \<open>
  A write through the pointer \<open>a\<close>: the item at that address is replaced by \<open>g\<close> of it.
\<close>

fun update_at :: "nat \<Rightarrow> (citem_t \<Rightarrow> citem_t) \<Rightarrow> citem_t \<Rightarrow> citem_t" where
  "update_at a g (Item h ks) =
     (if addr h = a then g (Item h ks) else Item h (map (update_at a g) ks))"

text \<open>The item at address \<open>a\<close>, as the tree is now.\<close>

definition item_at :: "citem_t \<Rightarrow> nat \<Rightarrow> citem_t option" where
  "item_at t a = find (\<lambda>x. item_addr x = a) (items t)"

text \<open>
  The loop of lines 758 to 771 over the statements of a block: the first statement that is
  \<open>cit_empty\<close> or \<open>cot_empty\<close> is erased. \<open>None\<close> when the block has none.
\<close>

fun erase_first_empty :: "citem_t list \<Rightarrow> citem_t list option" where
  "erase_first_empty [] = None"
| "erase_first_empty (k # ks) =
     (if item_op k = cit_empty \<or> item_op k = cot_empty then Some ks
      else map_option ((#) k) (erase_first_empty ks))"

text \<open>
  What a visit in \<open>Pruning\<close> mode decides for the item (lines 750 to 833):
  \<^item> \<open>Erased ks\<close>: the item is a block with an empty statement; its statements become \<open>ks\<close>,
    \<open>fPruned\<close> is set and the traversal stops;
  \<^item> \<open>Kept\<close>: return 0, the traversal goes on into the children;
  \<^item> \<open>Skipped\<close>: \<open>prune_now\<close> and return 0, the children are not visited;
  \<^item> \<open>Doomed\<close>: the goto labels under the item are cleaned up, the item is cleaned up,
    \<open>fPruned\<close> is set and the traversal stops.
\<close>

datatype prune_verdict = Erased "citem_t list" | Kept | Skipped | Doomed

definition visit_item_pruning :: "nat list \<Rightarrow> citem_t \<Rightarrow> prune_verdict" where
  "visit_item_pruning pVectorLegitItems pItem =
     (if item_op pItem = cit_block
      then (case erase_first_empty (kids pItem) of Some ks \<Rightarrow> Erased ks | None \<Rightarrow> Kept)
      else if item_op pItem = cit_break \<or> item_op pItem = cit_continue \<or>
              item_op pItem = cit_goto \<or> item_op pItem = cit_empty \<or>
              item_op pItem = cot_empty \<or> item_op pItem = cit_asm \<or>
              item_op pItem = cit_return
      then Skipped
      else if item_addr pItem \<in> set pVectorLegitItems then Kept
      else if is_expr pItem then Kept
      else Doomed)"

text \<open>
  \<open>apply_to\<close> in \<open>Pruning\<close> mode, up to the item at which the visitor changes the tree and
  stops the traversal: that item and the verdict on it, or \<open>None\<close> when the traversal
  reaches its end.
\<close>

fun find_prunable :: "nat list \<Rightarrow> citem_t \<Rightarrow> (citem_t \<times> prune_verdict) option"
  and find_prunable_kids :: "nat list \<Rightarrow> citem_t list \<Rightarrow> (citem_t \<times> prune_verdict) option"
  where
  "find_prunable L (Item h ks) =
     (case visit_item_pruning L (Item h ks) of
        Erased ks' \<Rightarrow> Some (Item h ks, Erased ks')
      | Doomed \<Rightarrow> Some (Item h ks, Doomed)
      | Skipped \<Rightarrow> None
      | Kept \<Rightarrow> find_prunable_kids L ks)"
| "find_prunable_kids L [] = None"
| "find_prunable_kids L (k # ks) =
     (case find_prunable L k of Some r \<Rightarrow> Some r | None \<Rightarrow> find_prunable_kids L ks)"

text \<open>
  Modelled from the spec: \<open>cinsn_t::cleanup\<close> of hexrays.hpp, the structural cleanup of a
  statement. It deletes the children of the statement and leaves an empty statement in its
  place, which the loop over the enclosing block erases on a later pass.
\<close>

definition cleanup :: "citem_t \<Rightarrow> citem_t" where
  "cleanup t = Item ((hdr t)\<lparr>op := cit_empty\<rparr>) []"

text \<open>
  Lines 1002 to 1009. Modelled from the spec: \<open>replace_by\<close> of hexrays.hpp puts, in the
  place of the goto, the statement built in lines 1002 to 1007: a return with the \<open>ea\<close>,
  the label number and the index of the goto, and no value. The item stays at its address.
\<close>

definition bare_return :: "citem_hdr \<Rightarrow> citem_t" where
  "bare_return h =
     Item \<lparr>addr = addr h, op = cit_return, ea = ea h, label_num = label_num h,
           index = index h, v_idx = 0, type_line = None, print1 = [], goto_label = - 1\<rparr> []"

text \<open>
  \<open>apply_to\<close> in \<open>ChangingGotos\<close> mode (lines 977 to 1013): the visitor returns 0 at every
  item, and the traversal goes on below the item as the visit leaves it. After
  \<open>replace_by\<close>, line 1010 calls \<open>cleanup\<close> on the same item, which is then the return.
\<close>

fun changing_gotos :: "int \<Rightarrow> int \<Rightarrow> citem_t \<Rightarrow> citem_t" where
  "changing_gotos nOld nNew (Item h ks) =
     (if \<not> (op h = cit_goto \<and> goto_label h = nOld)
      then Item h (map (changing_gotos nOld nNew) ks)
      else if nNew \<noteq> - 1
      then Item (h\<lparr>goto_label := nNew\<rparr>) (map (changing_gotos nOld nNew) ks)
      else cleanup (bare_return h))"

text \<open>
  \<open>apply_to(pParent, NULL)\<close> in \<open>FindingChildrenOfParent\<close> mode (lines 960 to 972):
  \<open>parent\<close> is \<open>parents.back()\<close>, the address of the item above the visited one, and
  \<open>None\<close> above the item at which the traversal starts.
\<close>

fun finding_children :: "nat \<Rightarrow> nat option \<Rightarrow> citem_t \<Rightarrow> citem_t list" where
  "finding_children pCurrentParent parent (Item h ks) =
     (if parent = Some pCurrentParent then [Item h ks] else []) @
     concat (map (finding_children pCurrentParent (Some (addr h))) ks)"

definition children_of_parent :: "citem_t \<Rightarrow> citem_t list" where
  "children_of_parent pParent = finding_children (item_addr pParent) None pParent"

text \<open>
  The loop of lines 904 to 919 over \<open>vectorChildrenOfParentBlock\<close>; \<open>e\<close> is \<open>pItem->ea\<close>
  and the last argument is \<open>pNewDestination\<close>.
\<close>

fun pick_destination :: "nat \<Rightarrow> citem_t list \<Rightarrow> citem_t option \<Rightarrow> citem_t option" where
  "pick_destination e [] d = d"
| "pick_destination e (c # cs) d =
     (if \<not> (ea (hdr c) > e) then pick_destination e cs d
      else (case d of
              None \<Rightarrow> pick_destination e cs (Some c)
            | Some d' \<Rightarrow>
                if ea (hdr c) < ea (hdr d') then pick_destination e cs (Some c)
                else pick_destination e cs d))"

text \<open>
  The loop \<open>while (pNewDestination == NULL)\<close> of lines 859 to 920. The second argument is
  what is left of the ancestors of the labelled item, nearest first. \<open>None\<close> when
  \<open>find_parent_of\<close> runs out of ancestors (\<open>pParent == NULL\<close>).
\<close>

fun search_blocks :: "nat \<Rightarrow> citem_t list \<Rightarrow> citem_t option" where
  "search_blocks e [] = None"
| "search_blocks e (pParent # ps) =
     (if item_op pParent \<noteq> cit_block then search_blocks e ps
      else (case pick_destination e (children_of_parent pParent) None of
              Some d \<Rightarrow> Some d
            | None \<Rightarrow> search_blocks e ps))"

definition new_destination :: "citem_t \<Rightarrow> citem_t \<Rightarrow> citem_t option" where
  "new_destination root pItem =
     search_blocks (ea (hdr pItem)) (ancestors root (item_addr pItem))"

definition set_label :: "int \<Rightarrow> citem_t \<Rightarrow> citem_t" where
  "set_label n t = Item ((hdr t)\<lparr>label_num := n\<rparr>) (kids t)"

text \<open>
  A visit in \<open>CleaningUpGotoLabels\<close> mode of an item that carries a label (lines 852 to
  954). The visitor returns 1. In the two branches that change the gotos the mode is left
  at \<open>ChangingGotos\<close>, as in the source.
\<close>

definition visit_item_cleaning :: "citem_t \<Rightarrow> piv_t \<Rightarrow> piv_t" where
  "visit_item_cleaning pItem st =
     (let st1 = st\<lparr>nOldLabelNumber := label_num (hdr pItem)\<rparr>
      in (case new_destination (tree st1) pItem of
            None \<Rightarrow>
              st1\<lparr>nNewLabelNumber := - 1, visitingMode := ChangingGotos,
                  tree := changing_gotos (nOldLabelNumber st1) (- 1) (tree st1),
                  fGotoCleaned := True\<rparr>
          | Some pNewDestination \<Rightarrow>
              if label_num (hdr pNewDestination) \<noteq> - 1
              then st1\<lparr>nNewLabelNumber := label_num (hdr pNewDestination),
                       visitingMode := ChangingGotos,
                       tree := changing_gotos (nOldLabelNumber st1)
                                 (label_num (hdr pNewDestination)) (tree st1),
                       fGotoCleaned := True\<rparr>
              else st1\<lparr>tree := update_at (item_addr pItem) (set_label (- 1))
                                 (update_at (item_addr pNewDestination)
                                    (set_label (label_num (hdr pItem))) (tree st1)),
                       fGotoCleaned := True\<rparr>))"

text \<open>
  \<open>apply_to(pItem, NULL)\<close> inside the loop of lines 817 to 823, where \<open>a\<close> is the address
  of \<open>pItem\<close>. In \<open>CleaningUpGotoLabels\<close> mode the visitor returns 0 until it meets an item
  with a label; in \<open>ChangingGotos\<close> mode it rewrites the gotos below \<open>pItem\<close>.
\<close>

definition apply_to_doomed :: "nat \<Rightarrow> piv_t \<Rightarrow> piv_t" where
  "apply_to_doomed a st =
     (if visitingMode st = CleaningUpGotoLabels
      then (case item_at (tree st) a of
              None \<Rightarrow> st
            | Some pItem \<Rightarrow>
                (case find (\<lambda>x. label_num (hdr x) \<noteq> - 1) (items pItem) of
                   None \<Rightarrow> st
                 | Some x \<Rightarrow> visit_item_cleaning x st))
      else if visitingMode st = ChangingGotos
      then st\<lparr>tree := update_at a
                 (changing_gotos (nOldLabelNumber st) (nNewLabelNumber st)) (tree st)\<rparr>
      else st)"

text \<open>The loop \<open>while (fGotoCleaned)\<close> of lines 817 to 823.\<close>

partial_function (option) cleaning_loop :: "nat \<Rightarrow> piv_t \<Rightarrow> piv_t option" where
  "cleaning_loop a st =
     (if fGotoCleaned st then cleaning_loop a (apply_to_doomed a (st\<lparr>fGotoCleaned := False\<rparr>))
      else Some st)"

text \<open>One pass of the loop of lines 1048 to 1054: \<open>apply_to\<close> in \<open>Pruning\<close> mode.\<close>

definition pruning_pass :: "nat list \<Rightarrow> piv_t \<Rightarrow> piv_t option" where
  "pruning_pass L st0 =
     (let st = st0\<lparr>fPruned := False\<rparr>
      in (case find_prunable L (tree st) of
            None \<Rightarrow> Some st
          | Some (pItem, Erased ks) \<Rightarrow>
              Some (st\<lparr>tree := update_at (item_addr pItem) (\<lambda>b. Item (hdr b) ks) (tree st),
                       fPruned := True\<rparr>)
          | Some (pItem, Doomed) \<Rightarrow>
              (case cleaning_loop (item_addr pItem)
                      (st\<lparr>visitingMode := CleaningUpGotoLabels, fGotoCleaned := True\<rparr>) of
                 None \<Rightarrow> None
               | Some st1 \<Rightarrow>
                   Some (st1\<lparr>visitingMode := Pruning,
                             tree := update_at (item_addr pItem) cleanup (tree st1),
                             fPruned := True\<rparr>))
          | Some (pItem, _) \<Rightarrow> Some st))"

text \<open>
  The loop itself. The first component of the result counts the passes made; \<open>n\<close> is the
  number of passes made before.
\<close>

partial_function (option) pruning_loop ::
  "nat list \<Rightarrow> nat \<Rightarrow> piv_t \<Rightarrow> (nat \<times> piv_t) option" where
  "pruning_loop L n st =
     (case pruning_pass L st of
        None \<Rightarrow> None
      | Some st1 \<Rightarrow> if fPruned st1 then pruning_loop L (Suc n) st1 else Some (Suc n, st1))"

section \<open>Detox\<close>

text \<open>
  The last loop of \<open>Detox\<close> (lines 1061 to 1067) reads \<open>fliv.afVariableIsLegit[i]\<close> for every
  variable. When the pointer is null and the function has a variable, the read is a null
  dereference; the error carries the function as it is at that moment.
\<close>

datatype error = NullDereference cfunc_t

definition clear_unused :: "bool list option \<Rightarrow> cfunc_t \<Rightarrow> error + cfunc_t" where
  "clear_unused legit f =
     (case legit of
        None \<Rightarrow> if lvars f = [] then Inr f else Inl (NullDereference f)
      | Some bm \<Rightarrow>
          Inr (f\<lparr>lvars := map (\<lambda>i. if \<not> bm ! i then clear_used (lvars f ! i) else lvars f ! i)
                              [0..<length (lvars f)]\<rparr>))"

text \<open>
  \<open>Detox\<close>: the marking loop, the pruning loop on the same tree, then the loop over the
  variables. \<open>None\<close> stands for a run that does not return.
\<close>

definition Detox :: "env_t \<Rightarrow> cfunc_t \<Rightarrow> (error + cfunc_t) option" where
  "Detox E pFunction =
     (case marking_loop E pFunction 0 fliv_init of
        None \<Rightarrow> None
      | Some (n, fliv) \<Rightarrow>
          (case pruning_loop (vectorLegitItems fliv) 0 (piv_init (body pFunction)) of
             None \<Rightarrow> None
           | Some (m, piv) \<Rightarrow>
               Some (clear_unused (afVariableIsLegit fliv) (pFunction\<lparr>body := tree piv\<rparr>))))"

declare marking_loop.simps [code]
declare cleaning_loop.simps [code]
declare pruning_loop.simps [code]

section \<open>Invariants of the marking phase\<close>

text \<open>
  The legitimacy set only gains items and an entry of the bitmap that is true stays true.
\<close>

definition legit_grows :: "fliv_t \<Rightarrow> fliv_t \<Rightarrow> bool" where
  "legit_grows s s' =
     (set (vectorLegitItems s) \<subseteq> set (vectorLegitItems s') \<and>
      (\<forall>i. var_is_legit s i \<longrightarrow> var_is_legit s' i))"

text \<open>
  What holds of the visitor between two visits: before \<open>Initialize\<close> has succeeded the
  bitmap pointer is null; afterwards the bitmap has one entry for each variable of the
  function, and the entry of every argument is true.
\<close>

definition fliv_inv :: "cfunc_t \<Rightarrow> fliv_t \<Rightarrow> bool" where
  "fliv_inv f s =
     (if fInitialized s
      then (case afVariableIsLegit s of
              None \<Rightarrow> False
            | Some bm \<Rightarrow> length bm = length (lvars f) \<and>
                (\<forall>i < length bm. is_arg_var (lvars f ! i) \<longrightarrow> bm ! i))
      else afVariableIsLegit s = None)"

text \<open>
  How the legitimacy set changes from one state of the visitor to a later one, for the
  termination of the marking loop: the set only gains items, it stays within the items of
  the body \<open>b\<close>, \<open>fNewLegitItemFound\<close> is only ever set, it is set only when the set has
  gained an item, and while it is clear the vector is unchanged.
\<close>

definition legit_step :: "citem_t \<Rightarrow> fliv_t \<Rightarrow> fliv_t \<Rightarrow> bool" where
  "legit_step b s s' =
     (set (vectorLegitItems s) \<subseteq> set (vectorLegitItems s') \<and>
      (set (vectorLegitItems s) \<subseteq> set (addrs b) \<longrightarrow> set (vectorLegitItems s') \<subseteq> set (addrs b)) \<and>
      (fNewLegitItemFound s \<longrightarrow> fNewLegitItemFound s') \<and>
      (fNewLegitItemFound s' \<longrightarrow>
         fNewLegitItemFound s \<or> set (vectorLegitItems s) \<subset> set (vectorLegitItems s')) \<and>
      (\<not> fNewLegitItemFound s' \<longrightarrow> vectorLegitItems s' = vectorLegitItems s))"

text \<open>
  The first items marked are an item below the root and the root itself: a legitimacy set
  that is not empty holds the root and another item.
\<close>

definition two_marks :: "citem_t \<Rightarrow> fliv_t \<Rightarrow> bool" where
  "two_marks b s =
     (vectorLegitItems s = [] \<or>
      (item_addr b \<in> set (vectorLegitItems s) \<and>
       (\<exists>a \<in> set (vectorLegitItems s). a \<noteq> item_addr b)))"

text \<open>A bound on the passes of the marking loop that can still find a new item.\<close>

definition passes_left :: "citem_t \<Rightarrow> fliv_t \<Rightarrow> nat" where
  "passes_left b s =
     (if vectorLegitItems s = [] then length (items b) - 1
      else length (items b) - card (set (vectorLegitItems s)))"

section \<open>Well-formed trees and the measures of the pruning phase\<close>

text \<open>
  The operators of the statements that \<open>Pruning\<close> mode can clean up: the statements that
  are neither blocks nor of the seven kinds it skips.
\<close>

definition prunable_op :: "ctype_t \<Rightarrow> bool" where
  "prunable_op k = (k \<in> {cit_expr, cit_if, cit_for, cit_while, cit_do, cit_switch})"

definition is_empty :: "citem_t \<Rightarrow> bool" where
  "is_empty t = (item_op t = cit_empty \<or> item_op t = cot_empty)"

text \<open>A goto has no operands.\<close>

definition leaf_gotos :: "citem_t \<Rightarrow> bool" where
  "leaf_gotos t = (\<forall>x \<in> set (items t). item_op x = cit_goto \<longrightarrow> kids x = [])"

text \<open>
  What the decompiler guarantees of the body of a function: no two items share an address,
  the body is a block, every expression statement, if, for, while, do and switch has its
  expression, and a goto has no operands.
\<close>

definition wf_ctree :: "citem_t \<Rightarrow> bool" where
  "wf_ctree root =
     (distinct (addrs root) \<and> item_op root = cit_block \<and>
      (\<forall>t \<in> set (items root). prunable_op (item_op t) \<longrightarrow> (\<exists>k \<in> set (kids t). is_expr k)) \<and>
      leaf_gotos root)"

text \<open>
  A statement that the loop over a block erases, now or after \<open>ChangingGotos\<close> mode has
  rewritten it: an empty statement, or a goto.
\<close>

definition erasable :: "citem_t \<Rightarrow> bool" where
  "erasable t = (is_empty t \<or> item_op t = cit_goto)"

text \<open>
  The work the pruning loop may still have to do on a tree: two passes for every statement
  it can clean up (one to clean it up, one to erase the empty statement left in a block)
  and one pass for every empty statement and every goto that stands in a block.
\<close>

fun pending :: "citem_t \<Rightarrow> nat" where
  "pending (Item h ks) =
     (if prunable_op (op h) then 2 else 0) +
     (if op h = cit_block
      then sum_list (map (\<lambda>k. pending k + (if erasable k then 1 else 0)) ks)
      else sum_list (map pending ks))"

definition weight :: "citem_t \<Rightarrow> nat" where
  "weight t = pending t + (if erasable t then 1 else 0)"

text \<open>The statement at address \<open>a\<close> that is about to be cleaned up is still in the tree.\<close>

definition has_prunable :: "nat \<Rightarrow> citem_t \<Rightarrow> bool" where
  "has_prunable a t = (\<exists>x \<in> set (items t). item_addr x = a \<and> prunable_op (item_op x))"

text \<open>What \<open>ChangingGotos\<close> mode does to the fields of one item.\<close>

definition cg_hdr :: "int \<Rightarrow> int \<Rightarrow> citem_hdr \<Rightarrow> citem_hdr" where
  "cg_hdr nOld nNew h =
     (if op h = cit_goto \<and> goto_label h = nOld
      then (if nNew \<noteq> - 1 then h\<lparr>goto_label := nNew\<rparr> else hdr (cleanup (bare_return h)))
      else h)"

text \<open>
  A label only moves to an item with a greater \<open>ea\<close>: the sum, over the labelled items, of
  the number of items with a greater \<open>ea\<close> falls with every move.
\<close>

definition later_count :: "citem_hdr list \<Rightarrow> nat \<Rightarrow> nat" where
  "later_count hs e = length (filter (\<lambda>h. e < ea h) hs)"

definition label_potential :: "citem_t \<Rightarrow> nat" where
  "label_potential t =
     sum_list (map (\<lambda>h. if label_num h \<noteq> - 1 then later_count (map hdr (items t)) (ea h) else 0)
                 (map hdr (items t)))"

definition cleaning_measure :: "piv_t \<Rightarrow> nat" where
  "cleaning_measure st =
     (if \<not> fGotoCleaned st then 0
      else if visitingMode st = CleaningUpGotoLabels then 2 + label_potential (tree st)
      else 1)"

definition clean_inv :: "nat \<Rightarrow> citem_t \<Rightarrow> bool" where
  "clean_inv a t = (distinct (addrs t) \<and> leaf_gotos t \<and> has_prunable a t)"

definition prune_inv :: "citem_t \<Rightarrow> bool" where
  "prune_inv t = (distinct (addrs t) \<and> leaf_gotos t)"

section \<open>The path to the root\<close>

text \<open>The path that \<open>path_to\<close> finds below the children \<open>ks\<close> of an item.\<close>

definition first_path :: "nat \<Rightarrow> citem_t list \<Rightarrow> citem_t list" where
  "first_path a ks = (case filter (\<lambda>p. p \<noteq> []) (map (path_to a) ks) of [] \<Rightarrow> [] | p # _ \<Rightarrow> p)"

section \<open>Example functions\<close>

definition mk_hdr :: "nat \<Rightarrow> ctype_t \<Rightarrow> nat \<Rightarrow> int \<Rightarrow> citem_hdr" where
  "mk_hdr a k e l =
     \<lparr>addr = a, op = k, ea = e, label_num = l, index = 0, v_idx = 0,
      type_line = None, print1 = [], goto_label = - 1\<rparr>"

definition env_ok :: env_t where
  "env_ok = \<lparr>tag_remove = (\<lambda>s. s), malloc_ok = (\<lambda>n. True)\<rparr>"

definition env_nomem :: env_t where
  "env_nomem = \<lparr>tag_remove = (\<lambda>s. s), malloc_ok = (\<lambda>n. False)\<rparr>"

text \<open>A body that is one inline-assembly statement, and one that is a goto.\<close>

definition asm_body :: citem_t where
  "asm_body = Item (mk_hdr 1 cit_block 0 (- 1)) [Item (mk_hdr 2 cit_asm 10 (- 1)) []]"

definition goto_body :: citem_t where
  "goto_body = Item (mk_hdr 1 cit_block 0 (- 1)) [Item (mk_hdr 2 cit_goto 10 (- 1)) []]"

text \<open>The body \<open>f();\<close> where \<open>f\<close> is a function of the program, and a local variable.\<close>

definition call_body :: citem_t where
  "call_body =
     Item (mk_hdr 1 cit_block 0 (- 1))
       [Item (mk_hdr 2 cit_expr 10 (- 1))
          [Item (mk_hdr 3 cot_call 10 (- 1)) [Item (mk_hdr 4 cot_obj 10 (- 1)) []]]]"

definition junk_var :: lvar_t where
  "junk_var = \<lparr>is_arg_var = False, used = True\<rparr>"

definition arg_var :: lvar_t where
  "arg_var = \<lparr>is_arg_var = True, used = True\<rparr>"

text \<open>
  A labelled statement that is the last statement of a block nested in the body, followed
  in the body by a return and a goto to the label; and a body whose last statement is
  labelled.
\<close>

definition reloc_stmt :: citem_t where
  "reloc_stmt = Item (mk_hdr 5 cit_expr 20 7) [Item (mk_hdr 6 cot_other 20 (- 1)) []]"

definition reloc_inner_block :: citem_t where
  "reloc_inner_block = Item (mk_hdr 4 cit_block 12 (- 1)) [reloc_stmt]"

definition reloc_return :: citem_t where
  "reloc_return = Item (mk_hdr 7 cit_return 30 (- 1)) []"

definition reloc_goto :: citem_t where
  "reloc_goto = Item ((mk_hdr 8 cit_goto 40 (- 1))\<lparr>goto_label := 7\<rparr>) []"

definition reloc_body :: citem_t where
  "reloc_body =
     Item (mk_hdr 1 cit_block 0 (- 1))
       [Item (mk_hdr 2 cit_if 10 (- 1)) [Item (mk_hdr 3 cot_other 10 (- 1)) [], reloc_inner_block],
        reloc_return, reloc_goto]"

definition last_stmt :: citem_t where
  "last_stmt = Item (mk_hdr 3 cit_expr 20 7) [Item (mk_hdr 4 cot_other 20 (- 1)) []]"

definition last_body :: citem_t where
  "last_body =
     Item (mk_hdr 1 cit_block 0 (- 1))
       [Item ((mk_hdr 2 cit_goto 5 (- 1))\<lparr>goto_label := 7\<rparr>) [], last_stmt]"

text \<open>
  The body \<open>if (v) { goto L; } f(); L: s;\<close>: the goto jumps over a call of a function of
  the program to the label of the last statement of the body, and that statement is junk.
\<close>

definition goto_junk_body :: citem_t where
  "goto_junk_body =
     Item (mk_hdr 1 cit_block 0 (- 1))
       [Item (mk_hdr 2 cit_if 10 (- 1))
          [Item (mk_hdr 3 cot_var 10 (- 1)) [],
           Item (mk_hdr 4 cit_block 12 (- 1))
             [Item ((mk_hdr 5 cit_goto 14 (- 1))\<lparr>goto_label := 7\<rparr>) []]],
        Item (mk_hdr 6 cit_expr 16 (- 1))
          [Item (mk_hdr 7 cot_call 16 (- 1)) [Item (mk_hdr 8 cot_obj 16 (- 1)) []]],
        Item (mk_hdr 9 cit_expr 20 7) [Item (mk_hdr 10 cot_other 20 (- 1)) []]]"

section \<open>The call classifier\<close>

text \<open>
  C10: for every expression whose operator is not \<open>cot_call\<close>, \<open>IsLegitimateCall\<close> returns
  false, whatever the operands and the names of the expression are.
\<close>

theorem IsLegitimateCall_non_call:
  "item_op e \<noteq> cot_call \<Longrightarrow> IsLegitimateCall E e = False"
  by (simp add: IsLegitimateCall_def)

theorem IsLegitimateCall_non_call_witness:
  "item_op (Item (mk_hdr 1 cot_var 0 (- 1)) []) \<noteq> cot_call \<and>
   IsLegitimateCall env_ok (Item (mk_hdr 1 cot_var 0 (- 1)) []) = False"
  using IsLegitimateCall_non_call [of "Item (mk_hdr 1 cot_var 0 (- 1)) []" env_ok]
  by (simp add: mk_hdr_def)

text \<open>
  C2: for a call with callee \<open>x\<close>, \<open>IsLegitimateCall\<close> returns true when \<open>x\<close> is not a
  helper; when \<open>x\<close> is a helper it returns false if rendering the name fails, and otherwise
  it returns false exactly when the name, stripped of its tags, is in the deny-list. The
  deny-list has 84 names, among them \<open>LOBYTE\<close>, \<open>HIWORD\<close>, \<open>__ROL__\<close> and \<open>__CFADD__\<close>.
\<close>

theorem IsLegitimateCall_call:
  "op h = cot_call \<Longrightarrow>
     IsLegitimateCall E (Item h (x # args)) =
       (if item_op x \<noteq> cot_helper then True
        else if print1 (hdr x) = [] then False
        else tag_remove E (print1 (hdr x)) \<notin> set aszNonLegitHelpers) \<and>
     {''LOBYTE'', ''HIWORD'', ''__ROL__'', ''__CFADD__''} \<subseteq> set aszNonLegitHelpers \<and>
     length aszNonLegitHelpers = 84"
  by (simp add: IsLegitimateCall_def aszNonLegitHelpers_def)

theorem IsLegitimateCall_call_witness:
  "op (mk_hdr 3 cot_call 0 (- 1)) = cot_call \<and>
   IsLegitimateCall env_ok
     (Item (mk_hdr 3 cot_call 0 (- 1))
        [Item ((mk_hdr 4 cot_helper 0 (- 1))\<lparr>print1 := ''LOBYTE''\<rparr>) []]) = False \<and>
   IsLegitimateCall env_ok
     (Item (mk_hdr 3 cot_call 0 (- 1))
        [Item ((mk_hdr 4 cot_helper 0 (- 1))\<lparr>print1 := ''__readfsdword''\<rparr>) []]) = True"
  using
    IsLegitimateCall_call [of "mk_hdr 3 cot_call 0 (- 1)" env_ok
      "Item ((mk_hdr 4 cot_helper 0 (- 1))\<lparr>print1 := ''LOBYTE''\<rparr>) []" "[]"]
    IsLegitimateCall_call [of "mk_hdr 3 cot_call 0 (- 1)" env_ok
      "Item ((mk_hdr 4 cot_helper 0 (- 1))\<lparr>print1 := ''__readfsdword''\<rparr>) []" "[]"]
  by (simp add: mk_hdr_def env_ok_def aszNonLegitHelpers_def)

section \<open>Inline assembly in the marking phase\<close>

text \<open>
  C4: the comment above the test of lines 453 to 481 names the asm-statement among the
  items whose ancestors are marked. As the test is written, \<open>visit_item\<close> returns 0 at an
  inline-assembly statement without marking anything: in the body that is one
  inline-assembly statement the marking loop ends with an empty legitimacy set, while in
  the body that is one goto both the goto and the block are marked.
\<close>

theorem asm_statement_not_marked:
  "visit_item env_ok \<lparr>body = asm_body, lvars = []\<rparr> (Item (mk_hdr 2 cit_asm 10 (- 1)) [])
     (fliv_init\<lparr>fInitialized := True, afVariableIsLegit := Some []\<rparr>) =
     (0, fliv_init\<lparr>fInitialized := True, afVariableIsLegit := Some []\<rparr>) \<and>
   map_option (vectorLegitItems \<circ> snd)
     (marking_loop env_ok \<lparr>body = asm_body, lvars = []\<rparr> 0 fliv_init) = Some [] \<and>
   map_option (vectorLegitItems \<circ> snd)
     (marking_loop env_ok \<lparr>body = goto_body, lvars = []\<rparr> 0 fliv_init) = Some [2, 1]"
  by code_simp

section \<open>Failure of the allocation\<close>

text \<open>
  C3: when \<open>malloc\<close> returns null, \<open>Initialize\<close> fails and the marking loop stops, but
  \<open>Detox\<close> goes on: the pruning loop runs with an empty legitimacy set and the last loop
  reads the null bitmap. On the body \<open>f();\<close> with one local variable, \<open>Detox\<close> keeps the
  statement when the allocation succeeds; when it fails the statement is deleted and the
  run ends in a null dereference.
\<close>

theorem Detox_allocation_failure:
  "Detox env_ok \<lparr>body = call_body, lvars = [junk_var]\<rparr> =
     Some (Inr \<lparr>body = call_body, lvars = [junk_var\<lparr>used := False\<rparr>]\<rparr>) \<and>
   Detox env_nomem \<lparr>body = call_body, lvars = [junk_var]\<rparr> =
     Some (Inl (NullDereference
       \<lparr>body = Item (mk_hdr 1 cit_block 0 (- 1)) [], lvars = [junk_var]\<rparr>))"
  by code_simp

section \<open>Monotonicity of the marking phase\<close>

lemma legit_grows_refl: "legit_grows s s"
  by (simp add: legit_grows_def)

lemma legit_grows_trans: "legit_grows s t \<Longrightarrow> legit_grows t u \<Longrightarrow> legit_grows s u"
  by (auto simp: legit_grows_def)

lemma fold_legit_grows:
  "(\<And>x s. x \<in> set xs \<Longrightarrow> legit_grows s (g x s)) \<Longrightarrow> legit_grows s (fold g xs s)"
proof (induction xs arbitrary: s)
  case Nil
  show ?case by (simp add: legit_grows_refl)
next
  case (Cons x xs)
  have "legit_grows s (g x s)" by (rule Cons.prems) simp
  moreover have "legit_grows (g x s) (fold g xs (g x s))"
    by (rule Cons.IH) (simp add: Cons.prems)
  ultimately show ?case by (auto intro: legit_grows_trans)
qed

lemma fold_fliv_inv:
  "(\<And>x s. x \<in> set xs \<Longrightarrow> fliv_inv f s \<Longrightarrow> fliv_inv f (g x s)) \<Longrightarrow>
   fliv_inv f s \<Longrightarrow> fliv_inv f (fold g xs s)"
  by (induction xs arbitrary: s) auto

lemma nth_update_True: "j < length xs \<Longrightarrow> xs ! j \<Longrightarrow> (xs[i := True]) ! j"
  by (cases "i = j") simp_all

lemma set_var_legit_grows: "legit_grows s (set_var_legit i s)"
  by (auto simp: legit_grows_def set_var_legit_def var_is_legit_def nth_update_True
           split: option.splits)

lemma set_var_legit_inv: "fliv_inv f s \<Longrightarrow> fliv_inv f (set_var_legit i s)"
  by (auto simp: fliv_inv_def set_var_legit_def nth_update_True split: option.splits if_splits)

lemma visit_item_marking_grows: "legit_grows s (visit_item_marking t s)"
proof -
  have a: "legit_grows s (set_var_legit i s)" for i by (rule set_var_legit_grows)
  show ?thesis
    using a [of "v_idx (hdr t)"]
    by (auto simp: visit_item_marking_def Let_def legit_grows_def var_is_legit_def)
qed

lemma visit_item_marking_inv: "fliv_inv f s \<Longrightarrow> fliv_inv f (visit_item_marking t s)"
  using set_var_legit_inv [of f s "v_idx (hdr t)"]
  by (auto simp: visit_item_marking_def Let_def fliv_inv_def split: if_splits)

lemma mark_descendants_grows: "legit_grows s (mark_descendants t s)"
proof (induction t s rule: mark_descendants.induct)
  case (1 h ks s)
  have "legit_grows (visit_item_marking (Item h ks) s)
          (fold mark_descendants ks (visit_item_marking (Item h ks) s))"
    by (rule fold_legit_grows) (rule 1)
  with visit_item_marking_grows [of s "Item h ks"] show ?case
    by (auto intro: legit_grows_trans)
qed

lemma mark_descendants_inv: "fliv_inv f s \<Longrightarrow> fliv_inv f (mark_descendants t s)"
proof (induction t s rule: mark_descendants.induct)
  case (1 h ks s)
  have "fliv_inv f (fold mark_descendants ks (visit_item_marking (Item h ks) s))"
    by (rule fold_fliv_inv) (auto intro: 1 visit_item_marking_inv)
  then show ?case by simp
qed

lemma mark_descendants_once_grows: "legit_grows s (mark_descendants_once t s)"
  by (simp add: mark_descendants_once_def legit_grows_refl mark_descendants_grows)

lemma mark_descendants_once_inv: "fliv_inv f s \<Longrightarrow> fliv_inv f (mark_descendants_once t s)"
  by (simp add: mark_descendants_once_def mark_descendants_inv)

lemma visit_legit_item_grows: "legit_grows s (visit_legit_item t s)"
proof -
  have a: "legit_grows s (mark_descendants e s)" for e by (rule mark_descendants_grows)
  have b: "legit_grows s (mark_descendants_once i (mark_descendants e s))" for e i
    by (rule legit_grows_trans [OF a mark_descendants_once_grows])
  have c: "legit_grows s
             (mark_descendants_once j (mark_descendants_once i (mark_descendants e s)))" for e i j
    by (rule legit_grows_trans [OF b mark_descendants_once_grows])
  show ?thesis
    by (simp add: visit_legit_item_def Let_def legit_grows_refl a b c split: option.splits)
qed

lemma visit_legit_item_inv: "fliv_inv f s \<Longrightarrow> fliv_inv f (visit_legit_item t s)"
  by (auto simp: visit_legit_item_def Let_def mark_descendants_inv mark_descendants_once_inv
           split: option.splits)

lemma mark_ancestor_grows: "legit_grows s (mark_ancestor E t s)"
proof -
  let ?s1 = "if item_addr t \<notin> set (vectorLegitItems s)
             then s\<lparr>vectorLegitItems := vectorLegitItems s @ [item_addr t],
                    fNewLegitItemFound := True\<rparr> else s"
  have a: "legit_grows s ?s1" by (auto simp: legit_grows_def var_is_legit_def)
  have b: "legit_grows ?s1 (mark_descendants_once t ?s1)" by (rule mark_descendants_once_grows)
  from a b have "legit_grows s (mark_descendants_once t ?s1)" by (rule legit_grows_trans)
  with a show ?thesis by (simp add: mark_ancestor_def Let_def)
qed

lemma mark_ancestor_inv: "fliv_inv f s \<Longrightarrow> fliv_inv f (mark_ancestor E t s)"
proof -
  assume i: "fliv_inv f s"
  let ?s1 = "if item_addr t \<notin> set (vectorLegitItems s)
             then s\<lparr>vectorLegitItems := vectorLegitItems s @ [item_addr t],
                    fNewLegitItemFound := True\<rparr> else s"
  from i have a: "fliv_inv f ?s1" by (auto simp: fliv_inv_def)
  then have "fliv_inv f (mark_descendants_once t ?s1)" by (rule mark_descendants_once_inv)
  with a show ?thesis by (simp add: mark_ancestor_def Let_def)
qed

lemma Initialize_grows:
  "fliv_inv f s \<Longrightarrow> \<not> fInitialized s \<Longrightarrow> legit_grows s (snd (Initialize E f s))"
  by (auto simp: Initialize_def legit_grows_def fliv_inv_def var_is_legit_def)

lemma Initialize_inv:
  "fliv_inv f s \<Longrightarrow> \<not> fInitialized s \<Longrightarrow> fliv_inv f (snd (Initialize E f s))"
  by (auto simp: Initialize_def fliv_inv_def)

lemma visit_item_grows: "fliv_inv f s \<Longrightarrow> legit_grows s (snd (visit_item E f t s))"
proof -
  assume i: "fliv_inv f s"
  define s1 where "s1 = (if fInitialized s then s else snd (Initialize E f s))"
  have g1: "legit_grows s s1"
    using i by (auto simp: s1_def legit_grows_refl Initialize_grows)
  have g2: "legit_grows s1 (visit_legit_item t s1)" by (rule visit_legit_item_grows)
  have g3: "legit_grows s1 (fold (mark_ancestor E) (t # ancestors (body f) (item_addr t)) s1)"
    by (rule fold_legit_grows) (rule mark_ancestor_grows)
  have "snd (visit_item E f t s) = s1 \<or> snd (visit_item E f t s) = visit_legit_item t s1 \<or>
        snd (visit_item E f t s) = fold (mark_ancestor E) (t # ancestors (body f) (item_addr t)) s1"
    by (auto simp: visit_item_def s1_def Initialize_def split: prod.splits bool.splits)
  with g1 g2 g3 show ?thesis by (auto intro: legit_grows_trans)
qed

lemma visit_item_inv: "fliv_inv f s \<Longrightarrow> fliv_inv f (snd (visit_item E f t s))"
proof -
  assume i: "fliv_inv f s"
  define s1 where "s1 = (if fInitialized s then s else snd (Initialize E f s))"
  have g1: "fliv_inv f s1"
    using i by (auto simp: s1_def Initialize_inv)
  have g2: "fliv_inv f (visit_legit_item t s1)" using g1 by (rule visit_legit_item_inv)
  have g3: "fliv_inv f (fold (mark_ancestor E) (t # ancestors (body f) (item_addr t)) s1)"
    by (rule fold_fliv_inv) (auto intro: mark_ancestor_inv g1)
  have "snd (visit_item E f t s) = s1 \<or> snd (visit_item E f t s) = visit_legit_item t s1 \<or>
        snd (visit_item E f t s) = fold (mark_ancestor E) (t # ancestors (body f) (item_addr t)) s1"
    by (auto simp: visit_item_def s1_def Initialize_def split: prod.splits bool.splits)
  with g1 g2 g3 show ?thesis by auto
qed

lemma apply_to_grows_inv:
  "fliv_inv f s \<Longrightarrow>
     legit_grows s (snd (apply_to E f t s)) \<and> fliv_inv f (snd (apply_to E f t s))"
  "fliv_inv f s \<Longrightarrow>
     legit_grows s (snd (apply_to_kids E f ts s)) \<and> fliv_inv f (snd (apply_to_kids E f ts s))"
proof (induction E f t s and E f ts s rule: apply_to_apply_to_kids.induct)
  case (1 E f h ks s)
  obtain r s1 where v: "visit_item E f (Item h ks) s = (r, s1)" by (cases "visit_item E f (Item h ks) s")
  from visit_item_grows [OF "1.prems", of E "Item h ks"] visit_item_inv [OF "1.prems", of E "Item h ks"] v
  have a: "legit_grows s s1" "fliv_inv f s1" by simp_all
  show ?case
  proof (cases "r = 0")
    case True
    from "1.IH" [OF v [symmetric] _ a(2)] True
    have "legit_grows s1 (snd (apply_to_kids E f ks s1))" "fliv_inv f (snd (apply_to_kids E f ks s1))"
      by simp_all
    with a v True show ?thesis by (auto intro: legit_grows_trans)
  next
    case False
    with a v show ?thesis by simp
  qed
next
  case (2 E f s)
  then show ?case by (simp add: legit_grows_refl)
next
  case (3 E f k ks s)
  obtain r s1 where v: "apply_to E f k s = (r, s1)" by (cases "apply_to E f k s")
  from "3.IH"(1) [OF "3.prems"] v
  have a: "legit_grows s s1" "fliv_inv f s1" by simp_all
  show ?case
  proof (cases "r = 0")
    case True
    from "3.IH"(2) [OF v [symmetric] _ a(2)] True
    have "legit_grows s1 (snd (apply_to_kids E f ks s1))" "fliv_inv f (snd (apply_to_kids E f ks s1))"
      by simp_all
    with a v True show ?thesis by (auto intro: legit_grows_trans)
  next
    case False
    with a v show ?thesis by simp
  qed
qed

lemma marking_pass_grows_inv:
  assumes "fliv_inv f s"
  shows "legit_grows s (marking_pass E f s)" and "fliv_inv f (marking_pass E f s)"
proof -
  let ?s0 = "s\<lparr>fNewLegitItemFound := False\<rparr>"
  from assms have i: "fliv_inv f ?s0" by (simp add: fliv_inv_def)
  have g: "legit_grows s ?s0" by (simp add: legit_grows_def var_is_legit_def)
  from apply_to_grows_inv(1) [OF i, of E "body f"] g
  show "legit_grows s (marking_pass E f s)" and "fliv_inv f (marking_pass E f s)"
    by (auto simp: marking_pass_def intro: legit_grows_trans)
qed

lemma marking_loop_grows_inv:
  assumes run: "marking_loop E f n s = Some r" and inv: "fliv_inv f s"
  shows "legit_grows s (snd r) \<and> fliv_inv f (snd r)"
proof -
  have "fliv_inv f s \<longrightarrow> legit_grows s (snd r) \<and> fliv_inv f (snd r)"
  proof (rule marking_loop.raw_induct
      [where P = "\<lambda>E f n s r. fliv_inv f s \<longrightarrow> legit_grows s (snd r) \<and> fliv_inv f (snd r)",
       OF _ run])
    fix loop E f n s r
    assume IH: "\<And>E f n s r. loop E f n s = Some r \<Longrightarrow>
                  fliv_inv f s \<longrightarrow> legit_grows s (snd r) \<and> fliv_inv f (snd r)"
      and eq: "(let s1 = marking_pass E f s
                in if fNewLegitItemFound s1 then loop E f (Suc n) s1 else Some (Suc n, s1)) = Some r"
    show "fliv_inv f s \<longrightarrow> legit_grows s (snd r) \<and> fliv_inv f (snd r)"
    proof
      assume i: "fliv_inv f s"
      let ?s1 = "marking_pass E f s"
      from marking_pass_grows_inv [OF i, of E]
      have a: "legit_grows s ?s1" "fliv_inv f ?s1" by simp_all
      show "legit_grows s (snd r) \<and> fliv_inv f (snd r)"
      proof (cases "fNewLegitItemFound ?s1")
        case True
        with eq have "loop E f (Suc n) ?s1 = Some r" by (simp add: Let_def)
        from IH [OF this] a show ?thesis by (auto intro: legit_grows_trans)
      next
        case False
        with eq have "r = (Suc n, ?s1)" by (simp add: Let_def)
        with a show ?thesis by simp
      qed
    qed
  qed
  with inv show ?thesis by simp
qed

lemma fliv_inv_init: "fliv_inv f fliv_init"
  by (simp add: fliv_inv_def fliv_init_def)

text \<open>
  C7: from every state of the visitor that the marking phase can reach (the constructor's
  state satisfies \<open>fliv_inv\<close>, and every visit and every pass keeps it), a visit in either
  mode, a nested traversal, a traversal of the body, a whole pass and the whole loop only
  add items to the legitimacy set and only turn entries of the bitmap from false to true.
\<close>

theorem marking_is_monotone:
  assumes "fliv_inv f s"
  shows "legit_grows s (visit_item_marking t s) \<and>
         legit_grows s (mark_descendants t s) \<and>
         legit_grows s (snd (visit_item E f t s)) \<and>
         legit_grows s (snd (apply_to E f t s)) \<and>
         legit_grows s (marking_pass E f s) \<and>
         (\<forall>n r. marking_loop E f n s = Some r \<longrightarrow> legit_grows s (snd r)) \<and>
         fliv_inv f (snd (visit_item E f t s)) \<and>
         fliv_inv f (marking_pass E f s) \<and>
         fliv_inv f fliv_init"
  using assms
  by (auto simp: visit_item_marking_grows mark_descendants_grows visit_item_grows visit_item_inv
        apply_to_grows_inv marking_pass_grows_inv fliv_inv_init
        dest: marking_loop_grows_inv)

theorem marking_is_monotone_witness:
  "fliv_inv \<lparr>body = call_body, lvars = [junk_var]\<rparr> fliv_init \<and>
   marking_pass env_ok \<lparr>body = call_body, lvars = [junk_var]\<rparr> fliv_init =
     \<lparr>fInitialized = True, vectorDescendantsMarkedLegit = [3, 4, 2],
      fNewLegitItemFound = True, vectorLegitItems = [3, 4, 2, 1],
      afVariableIsLegit = Some [False]\<rparr> \<and>
   legit_grows fliv_init
     \<lparr>fInitialized = True, vectorDescendantsMarkedLegit = [3, 4, 2],
      fNewLegitItemFound = True, vectorLegitItems = [3, 4, 2, 1],
      afVariableIsLegit = Some [False]\<rparr>"
proof -
  have h: "fliv_inv \<lparr>body = call_body, lvars = [junk_var]\<rparr> fliv_init"
    by (rule fliv_inv_init)
  have e: "marking_pass env_ok \<lparr>body = call_body, lvars = [junk_var]\<rparr> fliv_init =
     \<lparr>fInitialized = True, vectorDescendantsMarkedLegit = [3, 4, 2],
      fNewLegitItemFound = True, vectorLegitItems = [3, 4, 2, 1],
      afVariableIsLegit = Some [False]\<rparr>"
    by code_simp
  from marking_is_monotone [OF h, of "call_body" env_ok] h e show ?thesis by simp
qed

section \<open>The variables after Detox\<close>

text \<open>
  C1: when \<open>Detox\<close> returns, the variable list has its length, the is-used flag of a
  variable is set exactly when it was set before and the bitmap entry of the variable, as
  the marking loop leaves it, is true; the bitmap entry of every argument is true, so the
  flag of an argument is what it was.
\<close>

theorem Detox_clears_unused_variables:
  assumes run: "marking_loop E f 0 fliv_init = Some (n, s)"
    and ret: "Detox E f = Some (Inr f')"
  shows "length (lvars f') = length (lvars f) \<and>
         (\<forall>i < length (lvars f).
            used (lvars f' ! i) = (used (lvars f ! i) \<and> var_is_legit s i) \<and>
            is_arg_var (lvars f' ! i) = is_arg_var (lvars f ! i) \<and>
            (is_arg_var (lvars f ! i) \<longrightarrow>
               var_is_legit s i \<and> used (lvars f' ! i) = used (lvars f ! i)))"
proof -
  from marking_loop_grows_inv [OF run fliv_inv_init] have inv: "fliv_inv f s" by simp
  from ret run obtain m piv where
    p: "pruning_loop (vectorLegitItems s) 0 (piv_init (body f)) = Some (m, piv)"
    and c: "clear_unused (afVariableIsLegit s) (f\<lparr>body := tree piv\<rparr>) = Inr f'"
    by (auto simp: Detox_def split: option.splits prod.splits)
  show ?thesis
  proof (cases "afVariableIsLegit s")
    case None
    with c have "lvars f = []" "f' = f\<lparr>body := tree piv\<rparr>"
      by (auto simp: clear_unused_def split: if_splits)
    then show ?thesis by simp
  next
    case (Some bm)
    with inv have len: "length bm = length (lvars f)"
      and args: "\<forall>i < length bm. is_arg_var (lvars f ! i) \<longrightarrow> bm ! i"
      by (auto simp: fliv_inv_def split: if_splits)
    from c Some have f': "lvars f' =
        map (\<lambda>i. if \<not> bm ! i then clear_used (lvars f ! i) else lvars f ! i)
          [0..<length (lvars f)]"
      by (auto simp: clear_unused_def)
    from Some len have v: "\<And>i. i < length (lvars f) \<Longrightarrow> var_is_legit s i = bm ! i"
      by (simp add: var_is_legit_def)
    from f' len args v show ?thesis by (auto simp: clear_used_def)
  qed
qed

theorem Detox_clears_unused_variables_witness:
  "marking_loop env_ok \<lparr>body = call_body, lvars = [junk_var, arg_var]\<rparr> 0 fliv_init =
     Some (2, \<lparr>fInitialized = True, vectorDescendantsMarkedLegit = [3, 4, 2],
               fNewLegitItemFound = False, vectorLegitItems = [3, 4, 2, 1],
               afVariableIsLegit = Some [False, True]\<rparr>) \<and>
   Detox env_ok \<lparr>body = call_body, lvars = [junk_var, arg_var]\<rparr> =
     Some (Inr \<lparr>body = call_body, lvars = [junk_var\<lparr>used := False\<rparr>, arg_var]\<rparr>) \<and>
   used ([junk_var\<lparr>used := False\<rparr>, arg_var] ! 0) = False \<and>
   used ([junk_var\<lparr>used := False\<rparr>, arg_var] ! 1) = True"
proof -
  have a: "marking_loop env_ok \<lparr>body = call_body, lvars = [junk_var, arg_var]\<rparr> 0 fliv_init =
     Some (2, \<lparr>fInitialized = True, vectorDescendantsMarkedLegit = [3, 4, 2],
               fNewLegitItemFound = False, vectorLegitItems = [3, 4, 2, 1],
               afVariableIsLegit = Some [False, True]\<rparr>)"
    by code_simp
  have b: "Detox env_ok \<lparr>body = call_body, lvars = [junk_var, arg_var]\<rparr> =
     Some (Inr \<lparr>body = call_body, lvars = [junk_var\<lparr>used := False\<rparr>, arg_var]\<rparr>)"
    by code_simp
  from Detox_clears_unused_variables [OF a b] a b show ?thesis
    by (simp add: arg_var_def junk_var_def)
qed

section \<open>What the pruning mode deletes\<close>

lemma erase_first_empty_Some:
  "erase_first_empty ks = Some ks' \<Longrightarrow>
   \<exists>pre e post. ks = pre @ e # post \<and> ks' = pre @ post \<and>
     (item_op e = cit_empty \<or> item_op e = cot_empty) \<and>
     (\<forall>k \<in> set pre. item_op k \<noteq> cit_empty \<and> item_op k \<noteq> cot_empty)"
proof (induction ks arbitrary: ks')
  case Nil
  then show ?case by simp
next
  case (Cons k ks)
  show ?case
  proof (cases "item_op k = cit_empty \<or> item_op k = cot_empty")
    case True
    with Cons.prems have "ks' = ks" by auto
    with True show ?thesis by (intro exI [of _ "[]"] exI [of _ k] exI [of _ ks]) auto
  next
    case False
    with Cons.prems obtain r where r: "erase_first_empty ks = Some r" "ks' = k # r" by auto
    from Cons.IH [OF r(1)] obtain pre e post where
      "ks = pre @ e # post" "r = pre @ post" "item_op e = cit_empty \<or> item_op e = cot_empty"
      "\<forall>k \<in> set pre. item_op k \<noteq> cit_empty \<and> item_op k \<noteq> cot_empty" by blast
    with False r show ?thesis
      by (intro exI [of _ "k # pre"] exI [of _ e] exI [of _ post]) auto
  qed
qed

lemma items_self: "t \<in> set (items t)"
  by (cases t) simp

lemma items_kid: "k \<in> set ks \<Longrightarrow> x \<in> set (items k) \<Longrightarrow> x \<in> set (items (Item h ks))"
  by auto

lemma find_prunable_sound:
  "find_prunable L t = Some (x, v) \<Longrightarrow>
     x \<in> set (items t) \<and> visit_item_pruning L x = v \<and> (v = Doomed \<or> (\<exists>ks. v = Erased ks))"
  "find_prunable_kids L ts = Some (x, v) \<Longrightarrow>
     (\<exists>k \<in> set ts. x \<in> set (items k)) \<and> visit_item_pruning L x = v \<and>
     (v = Doomed \<or> (\<exists>ks. v = Erased ks))"
proof (induction L t and L ts rule: find_prunable_find_prunable_kids.induct)
  case (1 L h ks)
  show ?case
  proof (cases "visit_item_pruning L (Item h ks)")
    case (Erased ks')
    with "1.prems" have "x = Item h ks" "v = Erased ks'" by simp_all
    with Erased show ?thesis by simp
  next
    case Kept
    with "1.prems" have "find_prunable_kids L ks = Some (x, v)" by simp
    from "1.IH" [OF Kept this] show ?thesis by auto
  next
    case Skipped
    with "1.prems" show ?thesis by simp
  next
    case Doomed
    with "1.prems" have "x = Item h ks" "v = Doomed" by simp_all
    with Doomed show ?thesis by simp
  qed
next
  case (2 L)
  then show ?case by simp
next
  case (3 L k ks)
  show ?case
  proof (cases "find_prunable L k")
    case None
    with "3.prems" have "find_prunable_kids L ks = Some (x, v)" by simp
    from "3.IH"(2) [OF None this] show ?thesis by auto
  next
    case (Some r)
    with "3.prems" have "find_prunable L k = Some (x, v)" by simp
    from "3.IH"(1) [OF this] show ?thesis by auto
  qed
qed

text \<open>
  C6: in \<open>Pruning\<close> mode the visitor cleans up an item only if the item is not in the
  legitimacy set, is a statement, and is neither a block nor one of break, continue, goto,
  empty statement, empty expression, inline assembly and return; it erases a statement
  from a block only if it is the first empty one; at an item of those seven kinds it does
  nothing and the traversal does not enter the children; expressions and items of the
  legitimacy set are never cleaned up; and a pass changes the tree only at the item the
  traversal stops at.
\<close>

theorem pruning_mode_deletions:
  "(visit_item_pruning L t = Doomed \<longrightarrow>
      item_addr t \<notin> set L \<and> \<not> is_expr t \<and>
      item_op t \<notin> {cit_block, cit_break, cit_continue, cit_goto, cit_empty, cot_empty,
                     cit_asm, cit_return}) \<and>
   (\<forall>ks. visit_item_pruning L t = Erased ks \<longrightarrow>
      item_op t = cit_block \<and>
      (\<exists>pre e post. kids t = pre @ e # post \<and> ks = pre @ post \<and>
         (item_op e = cit_empty \<or> item_op e = cot_empty) \<and>
         (\<forall>k \<in> set pre. item_op k \<noteq> cit_empty \<and> item_op k \<noteq> cot_empty))) \<and>
   (item_op t \<in> {cit_break, cit_continue, cit_goto, cit_empty, cot_empty, cit_asm, cit_return}
      \<longrightarrow> visit_item_pruning L t = Skipped \<and> find_prunable L t = None) \<and>
   (is_expr t \<longrightarrow> visit_item_pruning L t = Kept \<or> visit_item_pruning L t = Skipped) \<and>
   (item_addr t \<in> set L \<longrightarrow> visit_item_pruning L t \<noteq> Doomed) \<and>
   (\<forall>x v. find_prunable L t = Some (x, v) \<longrightarrow>
      x \<in> set (items t) \<and> visit_item_pruning L x = v \<and> (v = Doomed \<or> (\<exists>ks. v = Erased ks))) \<and>
   (\<forall>st st'. pruning_pass L st = Some st' \<longrightarrow>
      (case find_prunable L (tree st) of
         None \<Rightarrow> tree st' = tree st \<and> \<not> fPruned st'
       | Some (x, Erased ks) \<Rightarrow>
           tree st' = update_at (item_addr x) (\<lambda>b. Item (hdr b) ks) (tree st) \<and> fPruned st'
       | Some (x, _) \<Rightarrow>
           (\<exists>st1. cleaning_loop (item_addr x)
                    (st\<lparr>fPruned := False, visitingMode := CleaningUpGotoLabels,
                        fGotoCleaned := True\<rparr>) = Some st1 \<and>
                  tree st' = update_at (item_addr x) cleanup (tree st1)) \<and> fPruned st'))"
proof -
  have a: "visit_item_pruning L t = Doomed \<longrightarrow>
      item_addr t \<notin> set L \<and> \<not> is_expr t \<and>
      item_op t \<notin> {cit_block, cit_break, cit_continue, cit_goto, cit_empty, cot_empty,
                     cit_asm, cit_return}"
    by (simp add: visit_item_pruning_def split: if_splits option.splits)
  have b: "\<forall>ks. visit_item_pruning L t = Erased ks \<longrightarrow>
      item_op t = cit_block \<and>
      (\<exists>pre e post. kids t = pre @ e # post \<and> ks = pre @ post \<and>
         (item_op e = cit_empty \<or> item_op e = cot_empty) \<and>
         (\<forall>k \<in> set pre. item_op k \<noteq> cit_empty \<and> item_op k \<noteq> cot_empty))"
    by (auto simp: visit_item_pruning_def split: if_splits option.splits
             dest: erase_first_empty_Some)
  have c: "item_op t \<in> {cit_break, cit_continue, cit_goto, cit_empty, cot_empty, cit_asm, cit_return}
      \<longrightarrow> visit_item_pruning L t = Skipped \<and> find_prunable L t = None"
    by (cases t) (auto simp: visit_item_pruning_def)
  have d: "is_expr t \<longrightarrow> visit_item_pruning L t = Kept \<or> visit_item_pruning L t = Skipped"
    by (auto simp: visit_item_pruning_def is_expr_def)
  have e: "item_addr t \<in> set L \<longrightarrow> visit_item_pruning L t \<noteq> Doomed"
    by (simp add: visit_item_pruning_def split: option.splits)
  have f: "\<forall>x v. find_prunable L t = Some (x, v) \<longrightarrow>
      x \<in> set (items t) \<and> visit_item_pruning L x = v \<and> (v = Doomed \<or> (\<exists>ks. v = Erased ks))"
    using find_prunable_sound(1) [of L t] by blast
  have g: "\<forall>st st'. pruning_pass L st = Some st' \<longrightarrow>
      (case find_prunable L (tree st) of
         None \<Rightarrow> tree st' = tree st \<and> \<not> fPruned st'
       | Some (x, Erased ks) \<Rightarrow>
           tree st' = update_at (item_addr x) (\<lambda>b. Item (hdr b) ks) (tree st) \<and> fPruned st'
       | Some (x, _) \<Rightarrow>
           (\<exists>st1. cleaning_loop (item_addr x)
                    (st\<lparr>fPruned := False, visitingMode := CleaningUpGotoLabels,
                        fGotoCleaned := True\<rparr>) = Some st1 \<and>
                  tree st' = update_at (item_addr x) cleanup (tree st1)) \<and> fPruned st')"
  proof (intro allI impI)
    fix st st'
    assume p: "pruning_pass L st = Some st'"
    show "case find_prunable L (tree st) of
         None \<Rightarrow> tree st' = tree st \<and> \<not> fPruned st'
       | Some (x, Erased ks) \<Rightarrow>
           tree st' = update_at (item_addr x) (\<lambda>b. Item (hdr b) ks) (tree st) \<and> fPruned st'
       | Some (x, _) \<Rightarrow>
           (\<exists>st1. cleaning_loop (item_addr x)
                    (st\<lparr>fPruned := False, visitingMode := CleaningUpGotoLabels,
                        fGotoCleaned := True\<rparr>) = Some st1 \<and>
                  tree st' = update_at (item_addr x) cleanup (tree st1)) \<and> fPruned st'"
    proof (cases "find_prunable L (tree st)")
      case None
      with p show ?thesis by (auto simp: pruning_pass_def Let_def)
    next
      case (Some r)
      obtain x v where r: "r = (x, v)" by (cases r)
      from find_prunable_sound(1) [of L "tree st" x v] Some r
      have "v = Doomed \<or> (\<exists>ks. v = Erased ks)" by simp
      with p Some r show ?thesis
        by (auto simp: pruning_pass_def Let_def split: option.splits)
    qed
  qed
  from a b c d e f g show ?thesis by blast
qed

theorem pruning_mode_deletions_witness:
  "visit_item_pruning [] (Item (mk_hdr 2 cit_expr 10 (- 1)) []) = Doomed \<and>
   item_addr (Item (mk_hdr 2 cit_expr 10 (- 1)) []) \<notin> set [] \<and>
   \<not> is_expr (Item (mk_hdr 2 cit_expr 10 (- 1)) []) \<and>
   visit_item_pruning [2] (Item (mk_hdr 2 cit_expr 10 (- 1)) []) = Kept \<and>
   visit_item_pruning [] asm_body = Kept \<and>
   find_prunable [] asm_body = None \<and>
   visit_item_pruning []
     (Item (mk_hdr 1 cit_block 0 (- 1))
        [Item (mk_hdr 2 cit_goto 10 (- 1)) [], Item (mk_hdr 3 cit_empty 10 (- 1)) [],
         Item (mk_hdr 4 cit_empty 10 (- 1)) []]) =
     Erased [Item (mk_hdr 2 cit_goto 10 (- 1)) [], Item (mk_hdr 4 cit_empty 10 (- 1)) []] \<and>
   find_prunable [] call_body =
     Some (Item (mk_hdr 2 cit_expr 10 (- 1))
             [Item (mk_hdr 3 cot_call 10 (- 1)) [Item (mk_hdr 4 cot_obj 10 (- 1)) []]],
           Doomed)"
proof -
  have e: "visit_item_pruning [] (Item (mk_hdr 2 cit_expr 10 (- 1)) []) = Doomed"
    "visit_item_pruning [2] (Item (mk_hdr 2 cit_expr 10 (- 1)) []) = Kept"
    "visit_item_pruning [] asm_body = Kept"
    "find_prunable [] asm_body = None"
    "visit_item_pruning []
     (Item (mk_hdr 1 cit_block 0 (- 1))
        [Item (mk_hdr 2 cit_goto 10 (- 1)) [], Item (mk_hdr 3 cit_empty 10 (- 1)) [],
         Item (mk_hdr 4 cit_empty 10 (- 1)) []]) =
     Erased [Item (mk_hdr 2 cit_goto 10 (- 1)) [], Item (mk_hdr 4 cit_empty 10 (- 1)) []]"
    "find_prunable [] call_body =
     Some (Item (mk_hdr 2 cit_expr 10 (- 1))
             [Item (mk_hdr 3 cot_call 10 (- 1)) [Item (mk_hdr 4 cot_obj 10 (- 1)) []]],
           Doomed)"
    by code_simp+
  from pruning_mode_deletions [of "[]" "Item (mk_hdr 2 cit_expr 10 (- 1)) []"] e
  show ?thesis by simp
qed

section \<open>Relocation of goto labels\<close>

subsection \<open>Trees\<close>

lemma items_subtree: "x \<in> set (items t) \<Longrightarrow> set (items x) \<subseteq> set (items t)"
proof (induction t rule: items.induct)
  case (1 h ks)
  show ?case
  proof (cases "x = Item h ks")
    case True
    then show ?thesis by simp
  next
    case False
    with "1.prems" obtain k where k: "k \<in> set ks" "x \<in> set (items k)" by auto
    from "1.IH" [OF k] k(1) show ?thesis by auto
  qed
qed

lemma kids_in_items: "k \<in> set (kids t) \<Longrightarrow> k \<in> set (items t)"
  by (cases t) (auto intro: items_self)

lemma path_to_items: "set (path_to a t) \<subseteq> set (items t)"
proof (induction a t rule: path_to.induct)
  case (1 a h ks)
  show ?case
  proof (cases "addr h = a")
    case True
    then show ?thesis by simp
  next
    case False
    show ?thesis
    proof (cases "filter (\<lambda>p. p \<noteq> []) (map (path_to a) ks)")
      case Nil
      with False show ?thesis by simp
    next
      case (Cons p ps)
      then have "p \<in> set (filter (\<lambda>p. p \<noteq> []) (map (path_to a) ks))" by simp
      then obtain k where k: "k \<in> set ks" "p = path_to a k" by auto
      from "1.IH" [OF False k(1)] k have "set p \<subseteq> set (items k)" by simp
      with k(1) have "set p \<subseteq> set (items (Item h ks))" by auto
      with False Cons show ?thesis by simp
    qed
  qed
qed

lemma ancestors_items: "set (ancestors root a) \<subseteq> set (items root)"
proof -
  have "set (tl (path_to a root)) \<subseteq> set (path_to a root)"
    by (cases "path_to a root") auto
  with path_to_items [of a root] show ?thesis by (auto simp: ancestors_def)
qed

lemma distinct_concat_elem:
  "distinct (concat xss) \<Longrightarrow> xs \<in> set xss \<Longrightarrow> distinct xs"
  by (induction xss) auto

lemma addrs_Item: "addrs (Item h ks) = addr h # concat (map addrs ks)"
  by (simp add: addrs_def [abs_def] map_concat comp_def)

lemma distinct_addrs_kid:
  "distinct (addrs (Item h ks)) \<Longrightarrow> k \<in> set ks \<Longrightarrow> distinct (addrs k)"
  by (auto simp: addrs_Item intro: distinct_concat_elem)

lemma distinct_addrs_subtree:
  "x \<in> set (items t) \<Longrightarrow> distinct (addrs t) \<Longrightarrow> distinct (addrs x)"
proof (induction t rule: items.induct)
  case (1 h ks)
  show ?case
  proof (cases "x = Item h ks")
    case True
    with "1.prems" show ?thesis by simp
  next
    case False
    with "1.prems" obtain k where k: "k \<in> set ks" "x \<in> set (items k)" by auto
    from distinct_addrs_kid [OF "1.prems"(2) k(1)] "1.IH" [OF k] show ?thesis by simp
  qed
qed

lemma kid_addrs_not_root:
  "distinct (addrs (Item h ks)) \<Longrightarrow> k \<in> set ks \<Longrightarrow> addr h \<notin> set (addrs k)"
  by (auto simp: addrs_Item)

subsection \<open>FindingChildrenOfParent\<close>

lemma finding_children_none:
  "a \<notin> set (addrs t) \<Longrightarrow> par \<noteq> Some a \<Longrightarrow> finding_children a par t = []"
proof (induction a par t rule: finding_children.induct)
  case (1 a par h ks)
  have "finding_children a (Some (addr h)) k = []" if "k \<in> set ks" for k
  proof (rule "1.IH" [OF that])
    from "1.prems"(1) that show "a \<notin> set (addrs k)" by (auto simp: addrs_Item)
    from "1.prems"(1) show "Some (addr h) \<noteq> Some a" by (auto simp: addrs_Item)
  qed
  then have "concat (map (finding_children a (Some (addr h))) ks) = []"
    by (induction ks) auto
  with "1.prems"(2) show ?case by simp
qed

lemma finding_children_kid:
  assumes "a \<notin> set (addrs k)"
  shows "finding_children a (Some a) k = [k]"
proof (cases k)
  case (Item h ks)
  have "finding_children a (Some (addr h)) k' = []" if "k' \<in> set ks" for k'
  proof (rule finding_children_none)
    from assms Item that show "a \<notin> set (addrs k')" by (auto simp: addrs_Item)
    from assms Item show "Some (addr h) \<noteq> Some a" by (auto simp: addrs_Item)
  qed
  then have "concat (map (finding_children a (Some (addr h))) ks) = []"
    by (induction ks) auto
  with Item show ?thesis by simp
qed

lemma children_of_parent_kids:
  assumes "distinct (addrs b)"
  shows "children_of_parent b = kids b"
proof (cases b)
  case (Item h ks)
  have "finding_children (addr h) (Some (addr h)) k = [k]" if "k \<in> set ks" for k
    by (rule finding_children_kid) (use assms Item that kid_addrs_not_root in blast)
  then have "concat (map (finding_children (addr h) (Some (addr h))) ks) = ks"
    by (induction ks) auto
  with Item show ?thesis by (simp add: children_of_parent_def)
qed

subsection \<open>The choice of the new destination\<close>

lemma pick_destination_Some:
  "\<exists>d. pick_destination e cs (Some d') = Some d \<and>
       (d = d' \<or> (d \<in> set cs \<and> e < ea (hdr d))) \<and> ea (hdr d) \<le> ea (hdr d') \<and>
       (\<forall>c \<in> set cs. e < ea (hdr c) \<longrightarrow> ea (hdr d) \<le> ea (hdr c))"
proof (induction cs arbitrary: d')
  case Nil
  show ?case by simp
next
  case (Cons c cs)
  show ?case
  proof (cases "e < ea (hdr c) \<and> ea (hdr c) < ea (hdr d')")
    case True
    from Cons.IH [of c] obtain d where
      "pick_destination e cs (Some c) = Some d"
      "d = c \<or> (d \<in> set cs \<and> e < ea (hdr d))" "ea (hdr d) \<le> ea (hdr c)"
      "\<forall>c \<in> set cs. e < ea (hdr c) \<longrightarrow> ea (hdr d) \<le> ea (hdr c)" by blast
    with True show ?thesis by auto
  next
    case False
    from Cons.IH [of d'] obtain d where
      "pick_destination e cs (Some d') = Some d"
      "d = d' \<or> (d \<in> set cs \<and> e < ea (hdr d))" "ea (hdr d) \<le> ea (hdr d')"
      "\<forall>c \<in> set cs. e < ea (hdr c) \<longrightarrow> ea (hdr d) \<le> ea (hdr c)" by blast
    with False show ?thesis by auto
  qed
qed

lemma pick_destination_None:
  "(pick_destination e cs None = None \<longleftrightarrow> (\<forall>c \<in> set cs. \<not> e < ea (hdr c))) \<and>
   (\<forall>d. pick_destination e cs None = Some d \<longrightarrow>
      d \<in> set cs \<and> e < ea (hdr d) \<and> (\<forall>c \<in> set cs. e < ea (hdr c) \<longrightarrow> ea (hdr d) \<le> ea (hdr c)))"
proof (induction cs)
  case Nil
  show ?case by simp
next
  case (Cons c cs)
  show ?case
  proof (cases "e < ea (hdr c)")
    case True
    from pick_destination_Some [of e cs c] obtain d where
      "pick_destination e cs (Some c) = Some d"
      "d = c \<or> (d \<in> set cs \<and> e < ea (hdr d))" "ea (hdr d) \<le> ea (hdr c)"
      "\<forall>c \<in> set cs. e < ea (hdr c) \<longrightarrow> ea (hdr d) \<le> ea (hdr c)" by blast
    with True show ?thesis by auto
  next
    case False
    with Cons.IH show ?thesis by auto
  qed
qed

lemma search_blocks_None:
  "search_blocks e ps = None \<longleftrightarrow>
     (\<forall>p \<in> set ps. item_op p = cit_block \<longrightarrow> (\<forall>c \<in> set (children_of_parent p). \<not> e < ea (hdr c)))"
proof (induction ps)
  case Nil
  show ?case by simp
next
  case (Cons p ps)
  show ?case
  proof (cases "item_op p = cit_block")
    case False
    with Cons.IH show ?thesis by simp
  next
    case True
    show ?thesis
    proof (cases "pick_destination e (children_of_parent p) None")
      case None
      with pick_destination_None [of e "children_of_parent p"]
      have "\<forall>c \<in> set (children_of_parent p). \<not> e < ea (hdr c)" by simp
      with True None Cons.IH show ?thesis by simp
    next
      case (Some d)
      with pick_destination_None [of e "children_of_parent p"]
      have "d \<in> set (children_of_parent p)" "e < ea (hdr d)" by simp_all
      with True Some show ?thesis by auto
    qed
  qed
qed

lemma search_blocks_Some:
  "search_blocks e ps = Some d \<Longrightarrow>
     \<exists>pre b post. ps = pre @ b # post \<and> item_op b = cit_block \<and>
       d \<in> set (children_of_parent b) \<and> e < ea (hdr d) \<and>
       (\<forall>c \<in> set (children_of_parent b). e < ea (hdr c) \<longrightarrow> ea (hdr d) \<le> ea (hdr c)) \<and>
       (\<forall>p \<in> set pre. item_op p = cit_block \<longrightarrow>
          (\<forall>c \<in> set (children_of_parent p). \<not> e < ea (hdr c)))"
proof (induction ps)
  case Nil
  then show ?case by simp
next
  case (Cons p ps)
  have skip: ?case if s: "search_blocks e ps = Some d"
    and n: "item_op p = cit_block \<longrightarrow> (\<forall>c \<in> set (children_of_parent p). \<not> e < ea (hdr c))"
  proof -
    from Cons.IH [OF s] obtain pre b post where
      "ps = pre @ b # post" "item_op b = cit_block"
      "d \<in> set (children_of_parent b)" "e < ea (hdr d)"
      "\<forall>c \<in> set (children_of_parent b). e < ea (hdr c) \<longrightarrow> ea (hdr d) \<le> ea (hdr c)"
      "\<forall>p \<in> set pre. item_op p = cit_block \<longrightarrow>
          (\<forall>c \<in> set (children_of_parent p). \<not> e < ea (hdr c))" by blast
    with n show ?thesis
      by (intro exI [of _ "p # pre"] exI [of _ b] exI [of _ post]) auto
  qed
  show ?case
  proof (cases "item_op p = cit_block")
    case False
    with Cons.prems have "search_blocks e ps = Some d" by simp
    with False show ?thesis by (intro skip) auto
  next
    case True
    show ?thesis
    proof (cases "pick_destination e (children_of_parent p) None")
      case None
      with pick_destination_None [of e "children_of_parent p"]
      have n: "\<forall>c \<in> set (children_of_parent p). \<not> e < ea (hdr c)" by simp
      from True None Cons.prems have "search_blocks e ps = Some d" by simp
      with n show ?thesis by (intro skip) auto
    next
      case (Some d')
      with True Cons.prems have "d' = d" by simp
      with Some pick_destination_None [of e "children_of_parent p"]
      have "d \<in> set (children_of_parent p)" "e < ea (hdr d)"
        "\<forall>c \<in> set (children_of_parent p). e < ea (hdr c) \<longrightarrow> ea (hdr d) \<le> ea (hdr c)"
        by simp_all
      with True show ?thesis
        by (intro exI [of _ "[]"] exI [of _ p] exI [of _ ps]) auto
    qed
  qed
qed

subsection \<open>ChangingGotos\<close>

lemma items_hdrs_Item:
  "map hdr (items (Item h ks)) = h # concat (map (\<lambda>k. map hdr (items k)) ks)"
  by (simp add: map_concat comp_def)

lemma changing_gotos_redirect:
  "new \<noteq> - 1 \<Longrightarrow>
   map hdr (items (changing_gotos old new t)) =
     map (\<lambda>h. if op h = cit_goto \<and> goto_label h = old then h\<lparr>goto_label := new\<rparr> else h)
       (map hdr (items t))"
proof (induction old new t rule: changing_gotos.induct)
  case (1 old new h ks)
  let ?g = "\<lambda>h. if op h = cit_goto \<and> goto_label h = old then h\<lparr>goto_label := new\<rparr> else h"
  have "concat (map (\<lambda>k. map hdr (items (changing_gotos old new k))) ks) =
        map ?g (concat (map (\<lambda>k. map hdr (items k)) ks))"
    using "1.IH" "1.prems" by (induction ks) (auto simp: map_concat)
  with "1.prems" show ?case
    by (simp add: map_concat comp_def)
qed

lemma changing_gotos_return:
  "\<forall>g \<in> set (items (changing_gotos old (- 1) t)).
     \<not> (item_op g = cit_goto \<and> goto_label (hdr g) = old)"
proof (induction old "- 1 :: int" t rule: changing_gotos.induct)
  case (1 old h ks)
  show ?case
  proof (cases "op h = cit_goto \<and> goto_label h = old")
    case True
    then show ?thesis by (simp add: bare_return_def cleanup_def)
  next
    case False
    with "1.hyps"(1) show ?thesis by auto
  qed
qed


lemma map_concat_cong:
  "(\<And>k. k \<in> set ks \<Longrightarrow> map g (F k) = G k) \<Longrightarrow>
   map g (concat (map F ks)) = concat (map G ks)"
  by (induction ks) auto

lemma leaf_gotos_Item:
  "leaf_gotos (Item h ks) \<longleftrightarrow> (op h = cit_goto \<longrightarrow> ks = []) \<and> (\<forall>k \<in> set ks. leaf_gotos k)"
  by (auto simp: leaf_gotos_def)

lemma changing_gotos_hdrs:
  "leaf_gotos t \<Longrightarrow>
   map hdr (items (changing_gotos old new t)) = map (cg_hdr old new) (map hdr (items t))"
proof (induction old new t rule: changing_gotos.induct)
  case (1 old new h ks)
  have kid: "map (cg_hdr old new) (map hdr (items k)) = map hdr (items (changing_gotos old new k))"
    if "k \<in> set ks" for k
    using "1.IH" that "1.prems" by (auto simp: leaf_gotos_Item)
  have kids: "map (cg_hdr old new) (concat (map (\<lambda>k. map hdr (items k)) ks)) =
              concat (map (\<lambda>k. map hdr (items (changing_gotos old new k))) ks)"
    by (rule map_concat_cong) (rule kid)
  show ?case
  proof (cases "op h = cit_goto \<and> goto_label h = old")
    case True
    with "1.prems" have "ks = []" by (simp add: leaf_gotos_Item)
    with True show ?thesis by (simp add: cg_hdr_def bare_return_def cleanup_def)
  next
    case False
    then have "cg_hdr old new h = h" by (auto simp: cg_hdr_def)
    with False kids show ?thesis by (simp add: map_concat comp_def)
  qed
qed

lemma list_all2_map_self:
  "(\<And>x. x \<in> set xs \<Longrightarrow> R x (f x)) \<Longrightarrow> list_all2 R xs (map f xs)"
  by (induction xs) auto

lemma map_hdrs_unchanged:
  "a \<notin> set (addrs t) \<Longrightarrow>
   map (\<lambda>h. if addr h = a then g h else h) (map hdr (items t)) = map hdr (items t)"
  by (rule map_idI) (auto simp: addrs_def)

lemma update_at_set_label_hdrs:
  "distinct (addrs t) \<Longrightarrow>
   map hdr (items (update_at a (set_label l) t)) =
     map (\<lambda>h. if addr h = a then h\<lparr>label_num := l\<rparr> else h) (map hdr (items t))"
proof (induction a "set_label l" t rule: update_at.induct)
  case (1 a h ks)
  let ?g = "\<lambda>h. if addr h = a then h\<lparr>label_num := l\<rparr> else h"
  show ?case
  proof (cases "addr h = a")
    case True
    have "map ?g (map hdr (items k)) = map hdr (items k)" if "k \<in> set ks" for k
      by (rule map_hdrs_unchanged) (use "1.prems" True that kid_addrs_not_root in blast)
    then have "map ?g (concat (map (\<lambda>k. map hdr (items k)) ks)) =
               concat (map (\<lambda>k. map hdr (items k)) ks)"
      by (rule map_concat_cong)
    with True show ?thesis by (simp add: set_label_def map_concat comp_def)
  next
    case False
    have "map hdr (items (update_at a (set_label l) k)) = map ?g (map hdr (items k))"
      if "k \<in> set ks" for k
      by (rule "1.hyps" [OF False that]) (rule distinct_addrs_kid [OF "1.prems" that])
    then have "map ?g (concat (map (\<lambda>k. map hdr (items k)) ks)) =
               concat (map (\<lambda>k. map hdr (items (update_at a (set_label l) k))) ks)"
      by (intro map_concat_cong) simp
    with False show ?thesis by (simp add: map_concat comp_def)
  qed
qed

text \<open>
  C5, as stated, fails: the labelled statement below has a nearest ancestor block, and that
  block has no later statement; the search goes on to the next block out, and the label
  lands on a statement of the body that is not a child of the nearest block. In the
  second body an ancestor block exists, no statement of it comes later, and the goto that
  targets the label is rewritten: no goto is left.
\<close>

theorem label_carrier_counterexample:
  "find (\<lambda>p. item_op p = cit_block) (ancestors reloc_body (item_addr reloc_stmt)) =
     Some reloc_inner_block \<and>
   children_of_parent reloc_inner_block = [reloc_stmt] \<and>
   new_destination reloc_body reloc_stmt = Some reloc_return \<and>
   reloc_return \<notin> set (children_of_parent reloc_inner_block) \<and>
   tree (visit_item_cleaning reloc_stmt (piv_init reloc_body)) =
     Item (mk_hdr 1 cit_block 0 (- 1))
       [Item (mk_hdr 2 cit_if 10 (- 1))
          [Item (mk_hdr 3 cot_other 10 (- 1)) [],
           Item (mk_hdr 4 cit_block 12 (- 1))
             [Item (mk_hdr 5 cit_expr 20 (- 1)) [Item (mk_hdr 6 cot_other 20 (- 1)) []]]],
        Item (mk_hdr 7 cit_return 30 7) [], reloc_goto] \<and>
   find (\<lambda>p. item_op p = cit_block) (ancestors last_body (item_addr last_stmt)) =
     Some last_body \<and>
   new_destination last_body last_stmt = None \<and>
   map item_addr (filter (\<lambda>g. item_op g = cit_goto) (items last_body)) = [2] \<and>
   filter (\<lambda>g. item_op g = cit_goto)
     (items (tree (visit_item_cleaning last_stmt (piv_init last_body)))) = []"
  by code_simp

text \<open>
  C5, amended: when \<open>CleaningUpGotoLabels\<close> visits a labelled item, the ancestor blocks of
  the item are searched from the nearest outwards. The new label carrier is, in the first
  of these blocks that has a direct child whose address is strictly greater than the
  item's, a child with the smallest such address (on a tree with distinct items the
  children collected are the direct children of the block). If the carrier has a label of
  its own, every goto of the function that targets the old label is redirected to the
  carrier's label and no label is moved; otherwise the label number is written to the
  carrier and cleared from the item. If no ancestor block has such a child (in particular
  if there is no ancestor block), every goto of the function that targets the label is
  rewritten in place: the item keeps its address, its \<open>ea\<close>, its label number and its
  index and is no longer a goto, and every other item is left as it is (on a tree whose
  gotos have no operands).
\<close>

theorem goto_label_relocation:
  "(new_destination root x = None \<longleftrightarrow>
      (\<forall>p \<in> set (ancestors root (item_addr x)). item_op p = cit_block \<longrightarrow>
         (\<forall>c \<in> set (children_of_parent p). \<not> ea (hdr x) < ea (hdr c)))) \<and>
   (\<forall>d. new_destination root x = Some d \<longrightarrow>
      (\<exists>pre b post. ancestors root (item_addr x) = pre @ b # post \<and> item_op b = cit_block \<and>
         d \<in> set (children_of_parent b) \<and> ea (hdr x) < ea (hdr d) \<and>
         (\<forall>c \<in> set (children_of_parent b). ea (hdr x) < ea (hdr c) \<longrightarrow> ea (hdr d) \<le> ea (hdr c)) \<and>
         (\<forall>p \<in> set pre. item_op p = cit_block \<longrightarrow>
            (\<forall>c \<in> set (children_of_parent p). \<not> ea (hdr x) < ea (hdr c))))) \<and>
   (\<forall>b \<in> set (ancestors root (item_addr x)).
      b \<in> set (items root) \<and> (distinct (addrs root) \<longrightarrow> children_of_parent b = kids b)) \<and>
   tree (visit_item_cleaning x (st\<lparr>tree := root\<rparr>)) =
     (case new_destination root x of
        None \<Rightarrow> changing_gotos (label_num (hdr x)) (- 1) root
      | Some d \<Rightarrow>
          if label_num (hdr d) \<noteq> - 1
          then changing_gotos (label_num (hdr x)) (label_num (hdr d)) root
          else update_at (item_addr x) (set_label (- 1))
                 (update_at (item_addr d) (set_label (label_num (hdr x))) root)) \<and>
   (\<forall>new. new \<noteq> - 1 \<longrightarrow>
      map hdr (items (changing_gotos old new root)) =
        map (\<lambda>h. if op h = cit_goto \<and> goto_label h = old then h\<lparr>goto_label := new\<rparr> else h)
          (map hdr (items root))) \<and>
   (\<forall>g \<in> set (items (changing_gotos old (- 1) root)).
      \<not> (item_op g = cit_goto \<and> goto_label (hdr g) = old)) \<and>
   (leaf_gotos root \<longrightarrow>
      list_all2
        (\<lambda>h h'. if op h = cit_goto \<and> goto_label h = old
                then addr h' = addr h \<and> ea h' = ea h \<and> label_num h' = label_num h \<and>
                     index h' = index h \<and> op h' \<noteq> cit_goto
                else h' = h)
        (map hdr (items root)) (map hdr (items (changing_gotos old (- 1) root)))) \<and>
   (\<forall>a l. distinct (addrs root) \<longrightarrow>
      map hdr (items (update_at a (set_label l) root)) =
        map (\<lambda>h. if addr h = a then h\<lparr>label_num := l\<rparr> else h) (map hdr (items root)))"
proof -
  have a: "new_destination root x = None \<longleftrightarrow>
      (\<forall>p \<in> set (ancestors root (item_addr x)). item_op p = cit_block \<longrightarrow>
         (\<forall>c \<in> set (children_of_parent p). \<not> ea (hdr x) < ea (hdr c)))"
    by (simp add: new_destination_def search_blocks_None)
  have b: "\<forall>d. new_destination root x = Some d \<longrightarrow>
      (\<exists>pre b post. ancestors root (item_addr x) = pre @ b # post \<and> item_op b = cit_block \<and>
         d \<in> set (children_of_parent b) \<and> ea (hdr x) < ea (hdr d) \<and>
         (\<forall>c \<in> set (children_of_parent b). ea (hdr x) < ea (hdr c) \<longrightarrow> ea (hdr d) \<le> ea (hdr c)) \<and>
         (\<forall>p \<in> set pre. item_op p = cit_block \<longrightarrow>
            (\<forall>c \<in> set (children_of_parent p). \<not> ea (hdr x) < ea (hdr c))))"
    using search_blocks_Some [of "ea (hdr x)" "ancestors root (item_addr x)"]
    by (simp add: new_destination_def)
  have c: "\<forall>b \<in> set (ancestors root (item_addr x)).
      b \<in> set (items root) \<and> (distinct (addrs root) \<longrightarrow> children_of_parent b = kids b)"
    using ancestors_items [of root "item_addr x"]
    by (auto intro: children_of_parent_kids distinct_addrs_subtree)
  have d: "tree (visit_item_cleaning x (st\<lparr>tree := root\<rparr>)) =
     (case new_destination root x of
        None \<Rightarrow> changing_gotos (label_num (hdr x)) (- 1) root
      | Some d \<Rightarrow>
          if label_num (hdr d) \<noteq> - 1
          then changing_gotos (label_num (hdr x)) (label_num (hdr d)) root
          else update_at (item_addr x) (set_label (- 1))
                 (update_at (item_addr d) (set_label (label_num (hdr x))) root))"
    by (simp add: visit_item_cleaning_def Let_def split: option.splits)
  have e: "\<forall>new. new \<noteq> - 1 \<longrightarrow>
      map hdr (items (changing_gotos old new root)) =
        map (\<lambda>h. if op h = cit_goto \<and> goto_label h = old then h\<lparr>goto_label := new\<rparr> else h)
          (map hdr (items root))"
    by (simp add: changing_gotos_redirect)
  have f: "\<forall>g \<in> set (items (changing_gotos old (- 1) root)).
      \<not> (item_op g = cit_goto \<and> goto_label (hdr g) = old)"
    by (rule changing_gotos_return)
  have g: "leaf_gotos root \<longrightarrow>
      list_all2
        (\<lambda>h h'. if op h = cit_goto \<and> goto_label h = old
                then addr h' = addr h \<and> ea h' = ea h \<and> label_num h' = label_num h \<and>
                     index h' = index h \<and> op h' \<noteq> cit_goto
                else h' = h)
        (map hdr (items root)) (map hdr (items (changing_gotos old (- 1) root)))"
  proof
    assume "leaf_gotos root"
    then have eq: "map hdr (items (changing_gotos old (- 1) root)) =
               map (cg_hdr old (- 1)) (map hdr (items root))"
      by (rule changing_gotos_hdrs)
    show "list_all2
        (\<lambda>h h'. if op h = cit_goto \<and> goto_label h = old
                then addr h' = addr h \<and> ea h' = ea h \<and> label_num h' = label_num h \<and>
                     index h' = index h \<and> op h' \<noteq> cit_goto
                else h' = h)
        (map hdr (items root)) (map hdr (items (changing_gotos old (- 1) root)))"
      unfolding eq
      by (rule list_all2_map_self) (simp add: cg_hdr_def bare_return_def cleanup_def)
  qed
  have h: "\<forall>a l. distinct (addrs root) \<longrightarrow>
      map hdr (items (update_at a (set_label l) root)) =
        map (\<lambda>h. if addr h = a then h\<lparr>label_num := l\<rparr> else h) (map hdr (items root))"
    by (simp add: update_at_set_label_hdrs)
  from a b c d e f g h show ?thesis by blast
qed

theorem goto_label_relocation_witness:
  "new_destination reloc_body reloc_stmt = Some reloc_return \<and>
   label_num (hdr reloc_return) = - 1 \<and>
   tree (visit_item_cleaning reloc_stmt ((piv_init reloc_body)\<lparr>tree := reloc_body\<rparr>)) =
     update_at (item_addr reloc_stmt) (set_label (- 1))
       (update_at (item_addr reloc_return) (set_label (label_num (hdr reloc_stmt))) reloc_body) \<and>
   new_destination last_body last_stmt = None \<and>
   tree (visit_item_cleaning last_stmt ((piv_init last_body)\<lparr>tree := last_body\<rparr>)) =
     changing_gotos (label_num (hdr last_stmt)) (- 1) last_body \<and>
   leaf_gotos last_body \<and>
   map (\<lambda>h. (addr h, ea h, label_num h, index h)) (map hdr (items last_body)) =
     [(1, 0, - 1, 0), (2, 5, - 1, 0), (3, 20, 7, 0), (4, 20, - 1, 0)] \<and>
   map (\<lambda>h. (addr h, ea h, label_num h, index h))
     (map hdr (items (changing_gotos 7 (- 1) last_body))) =
     [(1, 0, - 1, 0), (2, 5, - 1, 0), (3, 20, 7, 0), (4, 20, - 1, 0)]"
proof -
  have e: "new_destination reloc_body reloc_stmt = Some reloc_return"
    "label_num (hdr reloc_return) = - 1"
    "new_destination last_body last_stmt = None"
    "leaf_gotos last_body"
    "map (\<lambda>h. (addr h, ea h, label_num h, index h)) (map hdr (items last_body)) =
       [(1, 0, - 1, 0), (2, 5, - 1, 0), (3, 20, 7, 0), (4, 20, - 1, 0)]"
    "map (\<lambda>h. (addr h, ea h, label_num h, index h))
       (map hdr (items (changing_gotos 7 (- 1) last_body))) =
       [(1, 0, - 1, 0), (2, 5, - 1, 0), (3, 20, 7, 0), (4, 20, - 1, 0)]"
    by code_simp+
  from goto_label_relocation [of reloc_body reloc_stmt "piv_init reloc_body" 7]
  have a: "tree (visit_item_cleaning reloc_stmt ((piv_init reloc_body)\<lparr>tree := reloc_body\<rparr>)) =
     (case new_destination reloc_body reloc_stmt of
        None \<Rightarrow> changing_gotos (label_num (hdr reloc_stmt)) (- 1) reloc_body
      | Some d \<Rightarrow>
          if label_num (hdr d) \<noteq> - 1
          then changing_gotos (label_num (hdr reloc_stmt)) (label_num (hdr d)) reloc_body
          else update_at (item_addr reloc_stmt) (set_label (- 1))
                 (update_at (item_addr d) (set_label (label_num (hdr reloc_stmt))) reloc_body))"
    by blast
  from goto_label_relocation [of last_body last_stmt "piv_init last_body" 7]
  have b: "tree (visit_item_cleaning last_stmt ((piv_init last_body)\<lparr>tree := last_body\<rparr>)) =
     (case new_destination last_body last_stmt of
        None \<Rightarrow> changing_gotos (label_num (hdr last_stmt)) (- 1) last_body
      | Some d \<Rightarrow>
          if label_num (hdr d) \<noteq> - 1
          then changing_gotos (label_num (hdr last_stmt)) (label_num (hdr d)) last_body
          else update_at (item_addr last_stmt) (set_label (- 1))
                 (update_at (item_addr d) (set_label (label_num (hdr last_stmt))) last_body))"
    by blast
  from a b e show ?thesis by simp
qed

section \<open>Termination of the two loops\<close>

subsection \<open>The marking loop\<close>

lemma legit_step_refl: "legit_step b s s"
  by (simp add: legit_step_def)

lemma legit_step_trans: "legit_step b s t \<Longrightarrow> legit_step b t u \<Longrightarrow> legit_step b s u"
  unfolding legit_step_def by (intro conjI impI) (blast, blast, blast, blast, metis)

lemma fold_legit_step:
  "(\<And>x s. x \<in> set xs \<Longrightarrow> legit_step b s (g x s)) \<Longrightarrow> legit_step b s (fold g xs s)"
proof (induction xs arbitrary: s)
  case Nil
  show ?case by (simp add: legit_step_refl)
next
  case (Cons x xs)
  have "legit_step b s (g x s)" by (rule Cons.prems) simp
  moreover have "legit_step b (g x s) (fold g xs (g x s))"
    by (rule Cons.IH) (simp add: Cons.prems)
  ultimately show ?case by (auto intro: legit_step_trans)
qed

lemma item_addr_in_addrs: "t \<in> set (items b) \<Longrightarrow> item_addr t \<in> set (addrs b)"
  by (auto simp: addrs_def)

lemma add_legit_step:
  "t \<in> set (items b) \<Longrightarrow>
   legit_step b s
     (if item_addr t \<notin> set (vectorLegitItems s)
      then s\<lparr>vectorLegitItems := vectorLegitItems s @ [item_addr t], fNewLegitItemFound := True\<rparr>
      else s)"
  by (auto simp: legit_step_def dest: item_addr_in_addrs)

lemma set_var_legit_step: "legit_step b s (set_var_legit i s)"
  by (simp add: legit_step_def set_var_legit_def)

lemma visit_item_marking_step:
  assumes "t \<in> set (items b)"
  shows "legit_step b s (visit_item_marking t s)"
proof (cases "item_addr t \<in> set (vectorDescendantsMarkedLegit s)")
  case True
  then show ?thesis by (simp add: visit_item_marking_def legit_step_refl)
next
  case False
  define s1 where "s1 = (if item_op t = cot_var then set_var_legit (v_idx (hdr t)) s else s)"
  define s2 where "s2 = (if item_addr t \<notin> set (vectorLegitItems s1)
      then s1\<lparr>vectorLegitItems := vectorLegitItems s1 @ [item_addr t], fNewLegitItemFound := True\<rparr>
      else s1)"
  have a: "legit_step b s s1" by (simp add: s1_def legit_step_refl set_var_legit_step)
  have b: "legit_step b s1 s2" unfolding s2_def by (rule add_legit_step [OF assms])
  have c: "legit_step b s2
             (s2\<lparr>vectorDescendantsMarkedLegit := vectorDescendantsMarkedLegit s2 @ [item_addr t]\<rparr>)"
    by (simp add: legit_step_def)
  have "visit_item_marking t s =
          s2\<lparr>vectorDescendantsMarkedLegit := vectorDescendantsMarkedLegit s2 @ [item_addr t]\<rparr>"
    using False by (simp add: visit_item_marking_def Let_def s1_def s2_def)
  with a b c show ?thesis by (auto intro: legit_step_trans)
qed

lemma mark_descendants_step:
  "t \<in> set (items b) \<Longrightarrow> legit_step b s (mark_descendants t s)"
proof (induction t s rule: mark_descendants.induct)
  case (1 h ks s)
  have k: "k \<in> set (items b)" if "k \<in> set ks" for k
    using items_subtree [OF "1.prems"] that by (auto intro: items_self)
  have "legit_step b (visit_item_marking (Item h ks) s)
          (fold mark_descendants ks (visit_item_marking (Item h ks) s))"
    by (rule fold_legit_step) (rule "1.IH", simp_all add: k)
  with visit_item_marking_step [OF "1.prems", of s] show ?case
    by (auto intro: legit_step_trans)
qed

lemma mark_descendants_once_step:
  "t \<in> set (items b) \<Longrightarrow> legit_step b s (mark_descendants_once t s)"
  by (simp add: mark_descendants_once_def legit_step_refl mark_descendants_step)

lemma nth_opt_in_set: "nth_opt xs n = Some x \<Longrightarrow> x \<in> set xs"
  by (induction xs n rule: nth_opt.induct) auto

lemma kid_in_items: "t \<in> set (items b) \<Longrightarrow> k \<in> set (kids t) \<Longrightarrow> k \<in> set (items b)"
  using items_subtree [of t b] kids_in_items [of k t] by blast

lemma governing_expr_kid: "governing_expr t = Some e \<Longrightarrow> e \<in> set (kids t)"
  by (auto simp: governing_expr_def dest: nth_opt_in_set split: ctype_t.splits)

lemma visit_legit_item_step:
  assumes "t \<in> set (items b)"
  shows "legit_step b s (visit_legit_item t s)"
proof -
  have k: "legit_step b s' (mark_descendants e s')" if "e \<in> set (kids t)" for e s'
    by (rule mark_descendants_step) (rule kid_in_items [OF assms that])
  have k1: "legit_step b s' (mark_descendants_once e s')" if "e \<in> set (kids t)" for e s'
    by (rule mark_descendants_once_step) (rule kid_in_items [OF assms that])
  have a: "legit_step b s (mark_descendants_once i (mark_descendants e s))"
    if "e \<in> set (kids t)" "i \<in> set (kids t)" for e i
    by (rule legit_step_trans [OF k [OF that(1)] k1 [OF that(2)]])
  have c: "legit_step b s (mark_descendants_once j (mark_descendants_once i (mark_descendants e s)))"
    if "e \<in> set (kids t)" "i \<in> set (kids t)" "j \<in> set (kids t)" for e i j
    by (rule legit_step_trans [OF a [OF that(1,2)] k1 [OF that(3)]])
  have d: "legit_step b s (mark_descendants_once j (mark_descendants e s))"
    if "e \<in> set (kids t)" "j \<in> set (kids t)" for e j
    by (rule a [OF that])
  show ?thesis
    by (auto simp: visit_legit_item_def Let_def legit_step_refl
             intro!: k a c d dest: governing_expr_kid nth_opt_in_set split: option.splits)
qed

lemma mark_ancestor_step:
  assumes "t \<in> set (items b)"
  shows "legit_step b s (mark_ancestor E t s)"
proof -
  let ?s1 = "if item_addr t \<notin> set (vectorLegitItems s)
             then s\<lparr>vectorLegitItems := vectorLegitItems s @ [item_addr t],
                    fNewLegitItemFound := True\<rparr> else s"
  have a: "legit_step b s ?s1" by (rule add_legit_step [OF assms])
  have "legit_step b ?s1 (mark_descendants_once t ?s1)"
    by (rule mark_descendants_once_step [OF assms])
  with a have "legit_step b s (mark_descendants_once t ?s1)" by (rule legit_step_trans)
  with a show ?thesis by (simp add: mark_ancestor_def Let_def)
qed

lemma Initialize_step: "legit_step b s (snd (Initialize E f s))"
  by (simp add: Initialize_def legit_step_def)

lemma visit_item_cases:
  "snd (visit_item E f t s) = s1 \<or> snd (visit_item E f t s) = visit_legit_item t s1 \<or>
   snd (visit_item E f t s) = fold (mark_ancestor E) (t # ancestors (body f) (item_addr t)) s1"
  if "s1 = (if fInitialized s then s else snd (Initialize E f s))"
  using that by (auto simp: visit_item_def Initialize_def split: prod.splits bool.splits)

lemma visit_item_step:
  assumes "t \<in> set (items (body f))"
  shows "legit_step (body f) s (snd (visit_item E f t s))"
proof -
  define s1 where "s1 = (if fInitialized s then s else snd (Initialize E f s))"
  have g1: "legit_step (body f) s s1"
    by (simp add: s1_def legit_step_refl Initialize_step)
  have g2: "legit_step (body f) s1 (visit_legit_item t s1)"
    by (rule visit_legit_item_step [OF assms])
  have g3: "legit_step (body f) s1
              (fold (mark_ancestor E) (t # ancestors (body f) (item_addr t)) s1)"
  proof (rule fold_legit_step)
    fix x s'
    assume "x \<in> set (t # ancestors (body f) (item_addr t))"
    with assms ancestors_items [of "body f" "item_addr t"] have "x \<in> set (items (body f))"
      by auto
    then show "legit_step (body f) s' (mark_ancestor E x s')" by (rule mark_ancestor_step)
  qed
  from visit_item_cases [OF s1_def, of t] g1 g2 g3 show ?thesis
    by (auto intro: legit_step_trans)
qed

lemma apply_to_step:
  "t \<in> set (items (body f)) \<Longrightarrow> legit_step (body f) s (snd (apply_to E f t s))"
  "set ts \<subseteq> set (items (body f)) \<Longrightarrow> legit_step (body f) s (snd (apply_to_kids E f ts s))"
proof (induction E f t s and E f ts s rule: apply_to_apply_to_kids.induct)
  case (1 E f h ks s)
  obtain r s1 where v: "visit_item E f (Item h ks) s = (r, s1)"
    by (cases "visit_item E f (Item h ks) s")
  from visit_item_step [OF "1.prems", of s E] v have a: "legit_step (body f) s s1" by simp
  have ks: "set ks \<subseteq> set (items (body f))"
    using items_subtree [OF "1.prems"] by (auto intro: items_self)
  show ?case
  proof (cases "r = 0")
    case True
    from "1.IH" [OF v [symmetric] _ ks] True
    have "legit_step (body f) s1 (snd (apply_to_kids E f ks s1))" by simp
    with a v True show ?thesis by (auto intro: legit_step_trans)
  next
    case False
    with a v show ?thesis by simp
  qed
next
  case (2 E f s)
  then show ?case by (simp add: legit_step_refl)
next
  case (3 E f k ks s)
  obtain r s1 where v: "apply_to E f k s = (r, s1)" by (cases "apply_to E f k s")
  from "3.IH"(1) "3.prems" v have a: "legit_step (body f) s s1" by simp
  show ?case
  proof (cases "r = 0")
    case True
    from "3.IH"(2) [OF v [symmetric]] "3.prems" True
    have "legit_step (body f) s1 (snd (apply_to_kids E f ks s1))" by simp
    with a v True show ?thesis by (auto intro: legit_step_trans)
  next
    case False
    with a v show ?thesis by simp
  qed
qed

lemma marking_pass_step:
  "legit_step (body f) (s\<lparr>fNewLegitItemFound := False\<rparr>) (marking_pass E f s)"
  unfolding marking_pass_def by (rule apply_to_step(1)) (rule items_self)

lemma path_to_nonempty: "a \<in> set (addrs t) \<Longrightarrow> path_to a t \<noteq> []"
proof (induction a t rule: path_to.induct)
  case (1 a h ks)
  show ?case
  proof (cases "addr h = a")
    case True
    then show ?thesis by simp
  next
    case False
    with "1.prems" obtain k where k: "k \<in> set ks" "a \<in> set (addrs k)"
      by (auto simp: addrs_Item)
    from "1.IH" [OF False k] have "path_to a k \<noteq> []" .
    with k(1) have "filter (\<lambda>p. p \<noteq> []) (map (path_to a) ks) \<noteq> []"
      by (auto simp: filter_empty_conv)
    with False show ?thesis by (auto split: list.splits)
  qed
qed

lemma path_to_last: "path_to a t \<noteq> [] \<Longrightarrow> last (path_to a t) = t"
  by (cases t) (auto split: list.splits if_splits)

lemma path_to_hd: "path_to a t \<noteq> [] \<Longrightarrow> item_addr (hd (path_to a t)) = a"
proof (induction a t rule: path_to.induct)
  case (1 a h ks)
  show ?case
  proof (cases "addr h = a")
    case True
    then show ?thesis by simp
  next
    case False
    with "1.prems" obtain p ps where
      c: "filter (\<lambda>p. p \<noteq> []) (map (path_to a) ks) = p # ps"
      by (auto split: list.splits)
    then have "p \<in> set (filter (\<lambda>p. p \<noteq> []) (map (path_to a) ks))" by simp
    then obtain k where k: "k \<in> set ks" "p = path_to a k" "p \<noteq> []" by auto
    from "1.IH" [OF False k(1)] k have "item_addr (hd p) = a" by simp
    with False c k(3) show ?thesis by simp
  qed
qed

lemma root_in_ancestors:
  assumes "t \<in> set (items b)" and "item_addr t \<noteq> item_addr b"
  shows "b \<in> set (ancestors b (item_addr t))"
proof -
  let ?p = "path_to (item_addr t) b"
  from assms(1) have ne: "?p \<noteq> []" by (intro path_to_nonempty item_addr_in_addrs)
  from path_to_last [OF ne] path_to_hd [OF ne] assms(2) have "hd ?p \<noteq> last ?p" by auto
  with ne have "last ?p \<in> set (tl ?p)"
    by (cases ?p) (auto split: if_splits)
  with path_to_last [OF ne] show ?thesis by (simp add: ancestors_def)
qed

lemma distinct_items_addr_inj:
  assumes "distinct (addrs b)" "x \<in> set (items b)" "y \<in> set (items b)"
    "item_addr x = item_addr y"
  shows "x = y"
proof -
  from assms(1) have "inj_on item_addr (set (items b))"
    by (simp add: addrs_def distinct_map)
  with assms(2-4) show ?thesis by (auto dest: inj_onD)
qed

lemma mark_ancestor_adds: "item_addr t \<in> set (vectorLegitItems (mark_ancestor E t s))"
proof -
  let ?s1 = "if item_addr t \<notin> set (vectorLegitItems s)
             then s\<lparr>vectorLegitItems := vectorLegitItems s @ [item_addr t],
                    fNewLegitItemFound := True\<rparr> else s"
  have a: "item_addr t \<in> set (vectorLegitItems ?s1)" by simp
  have "legit_grows ?s1 (mark_descendants_once t ?s1)" by (rule mark_descendants_once_grows)
  with a have "item_addr t \<in> set (vectorLegitItems (mark_descendants_once t ?s1))"
    unfolding legit_grows_def by blast
  with a show ?thesis by (simp add: mark_ancestor_def Let_def)
qed

lemma fold_mark_ancestor_adds:
  "x \<in> set xs \<Longrightarrow> item_addr x \<in> set (vectorLegitItems (fold (mark_ancestor E) xs s))"
proof (induction xs arbitrary: s)
  case Nil
  then show ?case by simp
next
  case (Cons y ys)
  show ?case
  proof (cases "x \<in> set ys")
    case True
    from Cons.IH [OF True] show ?thesis by simp
  next
    case False
    with Cons.prems have "x = y" by simp
    have "legit_grows (mark_ancestor E y s) (fold (mark_ancestor E) ys (mark_ancestor E y s))"
      by (rule fold_legit_grows) (rule mark_ancestor_grows)
    with mark_ancestor_adds [of y E s] \<open>x = y\<close> show ?thesis
      unfolding legit_grows_def by auto
  qed
qed

lemma two_marks_mono:
  "two_marks b s \<Longrightarrow> vectorLegitItems s \<noteq> [] \<Longrightarrow>
   set (vectorLegitItems s) \<subseteq> set (vectorLegitItems s') \<Longrightarrow> two_marks b s'"
  by (auto simp: two_marks_def)

lemma is_candidate_not_block: "is_candidate E s t \<Longrightarrow> item_op t \<noteq> cit_block"
  by (auto simp: is_candidate_def split: if_splits)

lemma visit_item_cases2:
  assumes "s1 = (if fInitialized s then s else snd (Initialize E f s))"
  shows "snd (visit_item E f t s) = s1 \<or>
         (item_addr t \<in> set (vectorLegitItems s1) \<and>
          snd (visit_item E f t s) = visit_legit_item t s1) \<or>
         (is_candidate E s1 t \<and>
          snd (visit_item E f t s) =
            fold (mark_ancestor E) (t # ancestors (body f) (item_addr t)) s1)"
  using assms by (auto simp: visit_item_def Initialize_def split: prod.splits bool.splits)

lemma visit_item_two_marks:
  assumes wf: "distinct (addrs (body f))" "item_op (body f) = cit_block"
    and t: "t \<in> set (items (body f))" and two: "two_marks (body f) s"
  shows "two_marks (body f) (snd (visit_item E f t s))"
proof -
  define s1 where "s1 = (if fInitialized s then s else snd (Initialize E f s))"
  have l1: "vectorLegitItems s1 = vectorLegitItems s" by (simp add: s1_def Initialize_def)
  from two l1 have two1: "two_marks (body f) s1" by (simp add: two_marks_def)
  from visit_item_step [OF t, of s E]
  have sub: "set (vectorLegitItems s) \<subseteq> set (vectorLegitItems (snd (visit_item E f t s)))"
    by (simp add: legit_step_def)
  show ?thesis
  proof (cases "vectorLegitItems s = []")
    case False
    from two_marks_mono [OF two False sub] show ?thesis .
  next
    case True
    from visit_item_cases2 [OF s1_def, of t] show ?thesis
    proof (elim disjE conjE)
      assume "snd (visit_item E f t s) = s1"
      with two1 show ?thesis by simp
    next
      assume "item_addr t \<in> set (vectorLegitItems s1)"
      with True l1 show ?thesis by simp
    next
      let ?r = "fold (mark_ancestor E) (t # ancestors (body f) (item_addr t)) s1"
      assume c: "is_candidate E s1 t" and r: "snd (visit_item E f t s) = ?r"
      from is_candidate_not_block [OF c] wf(2) have "t \<noteq> body f" by auto
      with distinct_items_addr_inj [OF wf(1) t items_self]
      have ne: "item_addr t \<noteq> item_addr (body f)" by auto
      from root_in_ancestors [OF t ne]
      have "body f \<in> set (t # ancestors (body f) (item_addr t))" by simp
      then have a: "item_addr (body f) \<in> set (vectorLegitItems ?r)"
        by (rule fold_mark_ancestor_adds)
      have "t \<in> set (t # ancestors (body f) (item_addr t))" by simp
      then have b: "item_addr t \<in> set (vectorLegitItems ?r)"
        by (rule fold_mark_ancestor_adds)
      from a b ne r show ?thesis by (auto simp: two_marks_def)
    qed
  qed
qed

lemma apply_to_two_marks:
  "distinct (addrs (body f)) \<Longrightarrow> item_op (body f) = cit_block \<Longrightarrow>
   t \<in> set (items (body f)) \<Longrightarrow> two_marks (body f) s \<Longrightarrow>
   two_marks (body f) (snd (apply_to E f t s))"
  "distinct (addrs (body f)) \<Longrightarrow> item_op (body f) = cit_block \<Longrightarrow>
   set ts \<subseteq> set (items (body f)) \<Longrightarrow> two_marks (body f) s \<Longrightarrow>
   two_marks (body f) (snd (apply_to_kids E f ts s))"
proof (induction E f t s and E f ts s rule: apply_to_apply_to_kids.induct)
  case (1 E f h ks s)
  obtain r s1 where v: "visit_item E f (Item h ks) s = (r, s1)"
    by (cases "visit_item E f (Item h ks) s")
  from visit_item_two_marks [OF "1.prems", of E] v have a: "two_marks (body f) s1" by simp
  have ks: "set ks \<subseteq> set (items (body f))"
    using items_subtree [OF "1.prems"(3)] by (auto intro: items_self)
  show ?case
  proof (cases "r = 0")
    case True
    from "1.IH" [OF v [symmetric] _ "1.prems"(1,2) ks a] True v show ?thesis by simp
  next
    case False
    with a v show ?thesis by simp
  qed
next
  case (2 E f s)
  then show ?case by simp
next
  case (3 E f k ks s)
  obtain r s1 where v: "apply_to E f k s = (r, s1)" by (cases "apply_to E f k s")
  from "3.IH"(1) [OF "3.prems"(1,2)] "3.prems"(3,4) v have a: "two_marks (body f) s1" by simp
  show ?case
  proof (cases "r = 0")
    case True
    from "3.IH"(2) [OF v [symmetric] _ "3.prems"(1,2) _ a] "3.prems"(3) True v
    show ?thesis by simp
  next
    case False
    with a v show ?thesis by simp
  qed
qed

lemma marking_pass_two_marks:
  assumes "distinct (addrs (body f))" "item_op (body f) = cit_block" "two_marks (body f) s"
  shows "two_marks (body f) (marking_pass E f s)"
proof -
  from assms(3) have "two_marks (body f) (s\<lparr>fNewLegitItemFound := False\<rparr>)"
    by (simp add: two_marks_def)
  from apply_to_two_marks(1) [OF assms(1,2) items_self this] show ?thesis
    by (simp add: marking_pass_def)
qed

lemma card_legit_le:
  "set (vectorLegitItems s) \<subseteq> set (addrs b) \<Longrightarrow>
   card (set (vectorLegitItems s)) \<le> length (items b)"
proof -
  assume "set (vectorLegitItems s) \<subseteq> set (addrs b)"
  then have "card (set (vectorLegitItems s)) \<le> card (set (addrs b))"
    by (intro card_mono) simp_all
  also have "\<dots> \<le> length (addrs b)" by (rule card_length)
  finally show ?thesis by (simp add: addrs_def)
qed

lemma marking_loop_terminates:
  assumes wf: "distinct (addrs (body f))" "item_op (body f) = cit_block"
  shows "set (vectorLegitItems s) \<subseteq> set (addrs (body f)) \<Longrightarrow> two_marks (body f) s \<Longrightarrow>
         \<exists>k s' s0. marking_loop E f n s = Some (k, s') \<and>
            k \<le> n + passes_left (body f) s + 1 \<and>
            s' = marking_pass E f s0 \<and> \<not> fNewLegitItemFound s' \<and>
            vectorLegitItems s' = vectorLegitItems s0"
proof (induction "passes_left (body f) s" arbitrary: n s rule: less_induct)
  case less
  let ?b = "body f"
  let ?s1 = "marking_pass E f s"
  from marking_pass_step [of f s E]
  have st: "legit_step ?b (s\<lparr>fNewLegitItemFound := False\<rparr>) ?s1" .
  from st less.prems(1) have sub1: "set (vectorLegitItems ?s1) \<subseteq> set (addrs ?b)"
    by (simp add: legit_step_def)
  from marking_pass_two_marks [OF wf less.prems(2)] have two1: "two_marks ?b ?s1" .
  show ?case
  proof (cases "fNewLegitItemFound ?s1")
    case False
    with st have "vectorLegitItems ?s1 = vectorLegitItems s" by (simp add: legit_step_def)
    moreover from False have "marking_loop E f n s = Some (Suc n, ?s1)"
      by (subst marking_loop.simps) (simp add: Let_def)
    ultimately show ?thesis using False by auto
  next
    case True
    with st have ps: "set (vectorLegitItems s) \<subset> set (vectorLegitItems ?s1)"
      by (simp add: legit_step_def)
    have dec: "passes_left ?b ?s1 < passes_left ?b s"
    proof (cases "vectorLegitItems s = []")
      case True
      from ps have ne: "vectorLegitItems ?s1 \<noteq> []" by auto
      with two1 obtain a where
        "item_addr ?b \<in> set (vectorLegitItems ?s1)" "a \<in> set (vectorLegitItems ?s1)"
        "a \<noteq> item_addr ?b"
        by (auto simp: two_marks_def)
      then have "{a, item_addr ?b} \<subseteq> set (vectorLegitItems ?s1)" "card {a, item_addr ?b} = 2"
        by auto
      then have "2 \<le> card (set (vectorLegitItems ?s1))"
        by (metis card_mono List.finite_set)
      with card_legit_le [OF sub1] True ne show ?thesis by (simp add: passes_left_def)
    next
      case False
      from ps have ne: "vectorLegitItems ?s1 \<noteq> []" by auto
      from ps have "card (set (vectorLegitItems s)) < card (set (vectorLegitItems ?s1))"
        by (intro psubset_card_mono) simp_all
      with card_legit_le [OF sub1] False ne show ?thesis by (simp add: passes_left_def)
    qed
    from less.hyps [OF dec sub1 two1, of "Suc n"] obtain k s' s0 where
      r: "marking_loop E f (Suc n) ?s1 = Some (k, s')"
         "k \<le> Suc n + passes_left ?b ?s1 + 1"
         "s' = marking_pass E f s0" "\<not> fNewLegitItemFound s'"
         "vectorLegitItems s' = vectorLegitItems s0"
      by blast
    from True r(1) have "marking_loop E f n s = Some (k, s')"
      by (subst marking_loop.simps) (simp add: Let_def)
    with r dec show ?thesis by (intro exI [of _ k] exI [of _ s'] exI [of _ s0]) auto
  qed
qed

subsection \<open>The work left for the pruning loop\<close>

lemma pending_Item:
  "pending (Item h ks) =
     (if prunable_op (op h) then 2 else 0) +
     (if op h = cit_block then sum_list (map weight ks) else sum_list (map pending ks))"
  by (simp add: weight_def [abs_def] pending.simps)

declare pending.simps [simp del]

lemma weight_Item:
  "weight (Item h ks) =
     pending (Item h ks) +
     (if op h = cit_empty \<or> op h = cot_empty \<or> op h = cit_goto then 1 else 0)"
  by (simp add: weight_def erasable_def is_empty_def)

lemma pending_le_weight: "pending t \<le> weight t"
  by (simp add: weight_def)

lemma sum_list_le:
  "(\<And>k. k \<in> set ks \<Longrightarrow> f k \<le> (g k :: nat)) \<Longrightarrow> sum_list (map f ks) \<le> sum_list (map g ks)"
  by (induction ks) (auto intro: add_mono)

lemma sum_list_less:
  "(\<And>k. k \<in> set ks \<Longrightarrow> f k \<le> (g k :: nat)) \<Longrightarrow> k0 \<in> set ks \<Longrightarrow> f k0 < g k0 \<Longrightarrow>
   sum_list (map f ks) < sum_list (map g ks)"
proof (induction ks)
  case Nil
  then show ?case by simp
next
  case (Cons k ks)
  have le: "sum_list (map f ks) \<le> sum_list (map g ks)"
    by (rule sum_list_le) (simp add: Cons.prems)
  have k: "f k \<le> g k" by (simp add: Cons.prems)
  show ?case
  proof (cases "k0 = k")
    case True
    with Cons.prems(3) le show ?thesis by simp
  next
    case False
    with Cons.prems have "sum_list (map f ks) < sum_list (map g ks)"
      by (intro Cons.IH) auto
    with k show ?thesis by simp
  qed
qed

lemma length_items_Item: "length (items (Item h ks)) = 1 + sum_list (map (\<lambda>k. length (items k)) ks)"
  by (simp add: length_concat comp_def)

lemma is_expr_not_prunable: "is_expr t \<Longrightarrow> \<not> prunable_op (item_op t)"
  by (auto simp: is_expr_def prunable_op_def)

lemma pending_bound:
  "(\<forall>x \<in> set (items t). prunable_op (item_op x) \<longrightarrow> (\<exists>k \<in> set (kids x). is_expr k)) \<Longrightarrow>
   weight t \<le> length (items t) \<and>
   (\<not> prunable_op (item_op t) \<longrightarrow> pending t + 1 \<le> length (items t))"
proof (induction t rule: items.induct)
  case (1 h ks)
  have kid: "weight k \<le> length (items k) \<and>
             (\<not> prunable_op (item_op k) \<longrightarrow> pending k + 1 \<le> length (items k))"
    if "k \<in> set ks" for k
  proof (rule "1.IH" [OF that])
    from "1.prems" that
    show "\<forall>x \<in> set (items k). prunable_op (item_op x) \<longrightarrow> (\<exists>k \<in> set (kids x). is_expr k)"
      by auto
  qed
  have w: "sum_list (map weight ks) \<le> sum_list (map (\<lambda>k. length (items k)) ks)"
    by (rule sum_list_le) (simp add: kid)
  have p: "sum_list (map pending ks) \<le> sum_list (map (\<lambda>k. length (items k)) ks)"
    by (rule sum_list_le) (use kid pending_le_weight le_trans in blast)
  show ?case
  proof (cases "prunable_op (op h)")
    case True
    with "1.prems" obtain k0 where k0: "k0 \<in> set ks" "is_expr k0" by auto
    from kid [OF k0(1)] is_expr_not_prunable [OF k0(2)]
    have "pending k0 < length (items k0)" by simp
    with k0(1) have "sum_list (map pending ks) < sum_list (map (\<lambda>k. length (items k)) ks)"
      by (intro sum_list_less [where ?k0.0 = k0])
         (use kid pending_le_weight le_trans in blast, simp_all)
    with True show ?thesis
      by (auto simp: pending_Item weight_Item length_items_Item prunable_op_def
               simp del: items.simps)
  next
    case False
    show ?thesis
    proof (cases "op h = cit_block")
      case True
      with False w show ?thesis
        by (simp add: pending_Item weight_Item length_items_Item del: items.simps)
    next
      case b: False
      with False p show ?thesis
        by (simp add: pending_Item weight_Item length_items_Item del: items.simps)
    qed
  qed
qed

lemma distinct_concat_shrink:
  "distinct (concat (map F ks)) \<Longrightarrow>
   (\<And>k. k \<in> set ks \<Longrightarrow> distinct (G k) \<and> set (G k) \<subseteq> set (F k)) \<Longrightarrow>
   distinct (concat (map G ks))"
proof (induction ks)
  case Nil
  show ?case by simp
next
  case (Cons k ks)
  from Cons.prems(1) have d: "distinct (F k)" "distinct (concat (map F ks))"
    "set (F k) \<inter> (\<Union>k' \<in> set ks. set (F k')) = {}"
    by auto
  have "distinct (concat (map G ks))"
    by (rule Cons.IH [OF d(2)]) (simp add: Cons.prems(2))
  moreover have "distinct (G k)" by (simp add: Cons.prems(2))
  moreover have "set (G k) \<inter> (\<Union>k' \<in> set ks. set (G k')) = {}"
  proof -
    have "set (G k) \<subseteq> set (F k)" by (simp add: Cons.prems(2))
    moreover have "(\<Union>k' \<in> set ks. set (G k')) \<subseteq> (\<Union>k' \<in> set ks. set (F k'))"
      using Cons.prems(2) by fastforce
    ultimately show ?thesis using d(3) by blast
  qed
  ultimately show ?case by simp
qed

lemma update_at_addrs:
  "(\<And>x. x \<in> set (items t) \<Longrightarrow> item_addr x = a \<Longrightarrow>
      set (addrs (g x)) \<subseteq> set (addrs x) \<and> distinct (addrs (g x))) \<Longrightarrow>
   distinct (addrs t) \<Longrightarrow>
   set (addrs (update_at a g t)) \<subseteq> set (addrs t) \<and> distinct (addrs (update_at a g t))"
proof (induction a g t rule: update_at.induct)
  case (1 a g h ks)
  show ?case
  proof (cases "addr h = a")
    case True
    with "1.prems"(1) [of "Item h ks"] show ?thesis by simp
  next
    case False
    have kid: "set (addrs (update_at a g k)) \<subseteq> set (addrs k) \<and>
               distinct (addrs (update_at a g k))" if "k \<in> set ks" for k
    proof (rule "1.IH" [OF False that])
      fix x assume "x \<in> set (items k)" "item_addr x = a"
      with that "1.prems"(1) [of x]
      show "set (addrs (g x)) \<subseteq> set (addrs x) \<and> distinct (addrs (g x))" by auto
    next
      from "1.prems"(2) that show "distinct (addrs k)" by (rule distinct_addrs_kid)
    qed
    from "1.prems"(2) have d: "distinct (concat (map addrs ks))"
      "addr h \<notin> (\<Union>k \<in> set ks. set (addrs k))"
      by (auto simp: addrs_Item)
    have "distinct (concat (map (\<lambda>k. addrs (update_at a g k)) ks))"
      by (rule distinct_concat_shrink [OF d(1)]) (simp add: kid)
    moreover have "(\<Union>k \<in> set ks. set (addrs (update_at a g k))) \<subseteq> (\<Union>k \<in> set ks. set (addrs k))"
      using kid by fastforce
    ultimately show ?thesis using False d(2)
      by (auto simp: addrs_Item comp_def)
  qed
qed

lemma leaf_gotos_subtree: "leaf_gotos t \<Longrightarrow> x \<in> set (items t) \<Longrightarrow> leaf_gotos x"
  using items_subtree [of x t] by (auto simp: leaf_gotos_def)

lemma update_at_leaf_gotos:
  "(\<And>x. x \<in> set (items t) \<Longrightarrow> item_addr x = a \<Longrightarrow> leaf_gotos (g x)) \<Longrightarrow>
   leaf_gotos t \<Longrightarrow> leaf_gotos (update_at a g t)"
proof (induction a g t rule: update_at.induct)
  case (1 a g h ks)
  show ?case
  proof (cases "addr h = a")
    case True
    with "1.prems"(1) [of "Item h ks"] show ?thesis by simp
  next
    case False
    have "leaf_gotos (update_at a g k)" if "k \<in> set ks" for k
    proof (rule "1.IH" [OF False that])
      fix x assume "x \<in> set (items k)" "item_addr x = a"
      with that "1.prems"(1) [of x] show "leaf_gotos (g x)" by auto
    next
      from "1.prems"(2) that show "leaf_gotos k" by (simp add: leaf_gotos_Item)
    qed
    with False "1.prems"(2) show ?thesis by (simp add: leaf_gotos_Item)
  qed
qed

lemma update_at_pending_le:
  "(\<And>x. x \<in> set (items t) \<Longrightarrow> item_addr x = a \<Longrightarrow>
      pending (g x) \<le> pending x \<and> weight (g x) \<le> weight x) \<Longrightarrow>
   pending (update_at a g t) \<le> pending t \<and> weight (update_at a g t) \<le> weight t"
proof (induction a g t rule: update_at.induct)
  case (1 a g h ks)
  show ?case
  proof (cases "addr h = a")
    case True
    with "1.prems"(1) [of "Item h ks"] show ?thesis by simp
  next
    case False
    have kid: "pending (update_at a g k) \<le> pending k \<and> weight (update_at a g k) \<le> weight k"
      if "k \<in> set ks" for k
    proof (rule "1.IH" [OF False that])
      fix x assume "x \<in> set (items k)" "item_addr x = a"
      with that "1.prems"(1) [of x]
      show "pending (g x) \<le> pending x \<and> weight (g x) \<le> weight x" by auto
    qed
    have "sum_list (map (\<lambda>k. pending (update_at a g k)) ks) \<le> sum_list (map pending ks)"
      "sum_list (map (\<lambda>k. weight (update_at a g k)) ks) \<le> sum_list (map weight ks)"
      by (rule sum_list_le, simp add: kid)+
    with False show ?thesis
      by (simp add: pending_Item weight_Item comp_def)
  qed
qed

lemma update_at_pending_less:
  "(\<And>x. x \<in> set (items t) \<Longrightarrow> item_addr x = a \<Longrightarrow>
      pending (g x) < pending x \<and> weight (g x) < weight x) \<Longrightarrow>
   a \<in> set (addrs t) \<Longrightarrow>
   pending (update_at a g t) < pending t \<and> weight (update_at a g t) < weight t"
proof (induction a g t rule: update_at.induct)
  case (1 a g h ks)
  show ?case
  proof (cases "addr h = a")
    case True
    with "1.prems"(1) [of "Item h ks"] show ?thesis by simp
  next
    case False
    have hyp: "pending (g x) < pending x \<and> weight (g x) < weight x"
      if "k \<in> set ks" "x \<in> set (items k)" "item_addr x = a" for k x
      using that "1.prems"(1) [of x] by auto
    have le: "pending (update_at a g k) \<le> pending k \<and> weight (update_at a g k) \<le> weight k"
      if "k \<in> set ks" for k
      by (rule update_at_pending_le) (use hyp [OF that] less_imp_le in blast)
    from "1.prems"(2) False obtain k0 where k0: "k0 \<in> set ks" "a \<in> set (addrs k0)"
      by (auto simp: addrs_Item)
    have lt: "pending (update_at a g k0) < pending k0 \<and> weight (update_at a g k0) < weight k0"
      by (rule "1.IH" [OF False k0(1) _ k0(2)]) (rule hyp [OF k0(1)])
    have "sum_list (map (\<lambda>k. pending (update_at a g k)) ks) < sum_list (map pending ks)"
      by (rule sum_list_less [where ?k0.0 = k0]) (simp_all add: le lt k0)
    moreover
    have "sum_list (map (\<lambda>k. weight (update_at a g k)) ks) < sum_list (map weight ks)"
      by (rule sum_list_less [where ?k0.0 = k0]) (simp_all add: le lt k0)
    ultimately show ?thesis using False
      by (simp add: pending_Item weight_Item comp_def)
  qed
qed

lemma has_prunable_Item:
  "has_prunable a (Item h ks) \<longleftrightarrow>
     (addr h = a \<and> prunable_op (op h)) \<or> (\<exists>k \<in> set ks. has_prunable a k)"
  by (auto simp: has_prunable_def)

lemma update_at_has_prunable:
  "(\<And>x. x \<in> set (items t) \<Longrightarrow> item_addr x = a \<Longrightarrow> has_prunable a' x \<Longrightarrow>
      has_prunable a' (g x)) \<Longrightarrow>
   has_prunable a' t \<Longrightarrow> has_prunable a' (update_at a g t)"
proof (induction a g t rule: update_at.induct)
  case (1 a g h ks)
  show ?case
  proof (cases "addr h = a")
    case True
    with "1.prems"(1) [of "Item h ks"] "1.prems"(2) show ?thesis by simp
  next
    case False
    have kid: "has_prunable a' (update_at a g k)" if "k \<in> set ks" "has_prunable a' k" for k
    proof (rule "1.IH" [OF False that(1) _ that(2)])
      fix x assume "x \<in> set (items k)" "item_addr x = a" "has_prunable a' x"
      with that(1) "1.prems"(1) [of x] show "has_prunable a' (g x)" by auto
    qed
    from "1.prems"(2) False kid show ?thesis
      by (auto simp: has_prunable_Item)
  qed
qed

subsection \<open>set_label\<close>

lemma set_label_pending:
  "pending (set_label l x) = pending x \<and> weight (set_label l x) = weight x"
  by (cases x) (simp add: set_label_def pending_Item weight_Item)

lemma set_label_leaf_gotos: "leaf_gotos x \<Longrightarrow> leaf_gotos (set_label l x)"
  by (cases x) (simp add: set_label_def leaf_gotos_Item)

lemma set_label_has_prunable: "has_prunable a x \<Longrightarrow> has_prunable a (set_label l x)"
  by (cases x) (simp add: set_label_def has_prunable_Item)

lemma set_label_addrs: "addrs (set_label l x) = addrs x"
  by (cases x) (simp add: set_label_def addrs_Item)

lemma update_set_label_addrs:
  "distinct (addrs t) \<Longrightarrow> addrs (update_at a (set_label l) t) = addrs t"
proof -
  assume d: "distinct (addrs t)"
  have "addrs (update_at a (set_label l) t) =
          map addr (map hdr (items (update_at a (set_label l) t)))"
    by (simp add: addrs_def)
  also have "\<dots> = map addr (map (\<lambda>h. if addr h = a then h\<lparr>label_num := l\<rparr> else h)
                              (map hdr (items t)))"
    by (simp only: update_at_set_label_hdrs [OF d])
  also have "\<dots> = addrs t" by (simp add: addrs_def comp_def)
  finally show ?thesis .
qed

lemma update_set_label_inv:
  assumes "clean_inv a' t"
  shows "clean_inv a' (update_at a (set_label l) t)"
    and "pending (update_at a (set_label l) t) \<le> pending t"
proof -
  from assms have d: "distinct (addrs t)" and lf: "leaf_gotos t" and hp: "has_prunable a' t"
    by (simp_all add: clean_inv_def)
  have "leaf_gotos (update_at a (set_label l) t)"
    by (rule update_at_leaf_gotos [OF _ lf])
       (auto intro: set_label_leaf_gotos leaf_gotos_subtree [OF lf])
  moreover have "has_prunable a' (update_at a (set_label l) t)"
    by (rule update_at_has_prunable [OF _ hp]) (rule set_label_has_prunable)
  ultimately show "clean_inv a' (update_at a (set_label l) t)"
    using d by (simp add: clean_inv_def update_set_label_addrs)
  show "pending (update_at a (set_label l) t) \<le> pending t"
    using update_at_pending_le [of t a "set_label l"] by (simp add: set_label_pending)
qed

subsection \<open>changing_gotos on a tree whose gotos have no operands\<close>

lemma cg_hdr_addr: "addr (cg_hdr old new h) = addr h"
  by (simp add: cg_hdr_def bare_return_def cleanup_def)

lemma cg_hdr_prunable: "prunable_op (op (cg_hdr old new h)) = prunable_op (op h)"
  by (simp add: cg_hdr_def bare_return_def cleanup_def prunable_op_def)

lemma changing_gotos_addrs: "leaf_gotos t \<Longrightarrow> addrs (changing_gotos old new t) = addrs t"
proof -
  assume lf: "leaf_gotos t"
  have "addrs (changing_gotos old new t) = map addr (map hdr (items (changing_gotos old new t)))"
    by (simp add: addrs_def)
  also have "\<dots> = map addr (map (cg_hdr old new) (map hdr (items t)))"
    by (simp only: changing_gotos_hdrs [OF lf])
  also have "\<dots> = addrs t" by (simp add: addrs_def comp_def cg_hdr_addr)
  finally show ?thesis .
qed

lemma changing_gotos_leaf_gotos: "leaf_gotos t \<Longrightarrow> leaf_gotos (changing_gotos old new t)"
proof (induction old new t rule: changing_gotos.induct)
  case (1 old new h ks)
  have "leaf_gotos (changing_gotos old new k)" if "k \<in> set ks" for k
    using "1.IH" that "1.prems" by (auto simp: leaf_gotos_Item)
  with "1.prems" show ?case
    by (auto simp: leaf_gotos_Item bare_return_def cleanup_def)
qed

lemma changing_gotos_pending:
  "leaf_gotos t \<Longrightarrow>
   pending (changing_gotos old new t) = pending t \<and>
   weight (changing_gotos old new t) = weight t"
proof (induction old new t rule: changing_gotos.induct)
  case (1 old new h ks)
  show ?case
  proof (cases "op h = cit_goto \<and> goto_label h = old")
    case True
    with "1.prems" have "ks = []" by (simp add: leaf_gotos_Item)
    with True show ?thesis
      by (simp add: bare_return_def cleanup_def pending_Item weight_Item prunable_op_def)
  next
    case False
    have kid: "pending (changing_gotos old new k) = pending k \<and>
               weight (changing_gotos old new k) = weight k" if "k \<in> set ks" for k
      using "1.IH"(1) [OF False that] "1.prems" that by (simp add: leaf_gotos_Item)
    have "(\<Sum>k\<leftarrow>ks. pending (changing_gotos old new k)) = sum_list (map pending ks)"
      "(\<Sum>k\<leftarrow>ks. weight (changing_gotos old new k)) = sum_list (map weight ks)"
      by (rule arg_cong [where f = sum_list], rule map_cong, simp, simp add: kid)+
    with False show ?thesis by (simp add: pending_Item weight_Item comp_def)
  qed
qed

lemma changing_gotos_has_prunable:
  assumes "leaf_gotos t" "has_prunable a t"
  shows "has_prunable a (changing_gotos old new t)"
proof -
  from assms(2) obtain x where x: "x \<in> set (items t)" "item_addr x = a" "prunable_op (item_op x)"
    by (auto simp: has_prunable_def)
  then have "cg_hdr old new (hdr x) \<in> set (map (cg_hdr old new) (map hdr (items t)))" by simp
  then have "cg_hdr old new (hdr x) \<in> set (map hdr (items (changing_gotos old new t)))"
    by (simp only: changing_gotos_hdrs [OF assms(1)])
  then obtain y where y: "y \<in> set (items (changing_gotos old new t))"
    "hdr y = cg_hdr old new (hdr x)"
    by auto
  from y(2) x have "item_addr y = a" "prunable_op (item_op y)"
    by (simp_all add: cg_hdr_addr cg_hdr_prunable)
  with y(1) show ?thesis unfolding has_prunable_def by blast
qed

lemma changing_gotos_inv:
  assumes "clean_inv a t"
  shows "clean_inv a (changing_gotos old new t)"
    and "pending (changing_gotos old new t) \<le> pending t"
  using assms
  by (simp_all add: clean_inv_def changing_gotos_addrs changing_gotos_leaf_gotos
        changing_gotos_has_prunable changing_gotos_pending)

lemma update_changing_gotos_inv:
  assumes "clean_inv a' t"
  shows "clean_inv a' (update_at a (changing_gotos old new) t)"
    and "pending (update_at a (changing_gotos old new) t) \<le> pending t"
proof -
  from assms have d: "distinct (addrs t)" and lf: "leaf_gotos t" and hp: "has_prunable a' t"
    by (simp_all add: clean_inv_def)
  have sub: "leaf_gotos x" "distinct (addrs x)" if "x \<in> set (items t)" for x
    using that lf d by (auto intro: leaf_gotos_subtree distinct_addrs_subtree)
  have "distinct (addrs (update_at a (changing_gotos old new) t))"
    using update_at_addrs [of t a "changing_gotos old new", OF _ d] sub
    by (simp add: changing_gotos_addrs)
  moreover have "leaf_gotos (update_at a (changing_gotos old new) t)"
    by (rule update_at_leaf_gotos [OF _ lf]) (simp add: changing_gotos_leaf_gotos sub)
  moreover have "has_prunable a' (update_at a (changing_gotos old new) t)"
    by (rule update_at_has_prunable [OF _ hp]) (simp add: changing_gotos_has_prunable sub)
  ultimately show "clean_inv a' (update_at a (changing_gotos old new) t)"
    by (simp add: clean_inv_def)
  show "pending (update_at a (changing_gotos old new) t) \<le> pending t"
    using update_at_pending_le [of t a "changing_gotos old new"] sub
    by (simp add: changing_gotos_pending)
qed

subsection \<open>A label that moves, moves forward\<close>

lemma length_filter_less:
  "(\<And>h. P h \<Longrightarrow> Q h) \<Longrightarrow> h0 \<in> set hs \<Longrightarrow> Q h0 \<Longrightarrow> \<not> P h0 \<Longrightarrow>
   length (filter P hs) < length (filter Q hs)"
proof (induction hs)
  case Nil
  then show ?case by simp
next
  case (Cons h hs)
  have le: "length (filter P hs) \<le> length (filter Q hs)"
  proof -
    have "length (filter P hs) = length (filter P (filter Q hs))"
      using Cons.prems(1) by (simp add: conj_commute cong: conj_cong)
    also have "\<dots> \<le> length (filter Q hs)" by (rule length_filter_le)
    finally show ?thesis .
  qed
  show ?case
  proof (cases "h0 = h")
    case True
    with Cons.prems le show ?thesis by simp
  next
    case False
    with Cons.prems have "length (filter P hs) < length (filter Q hs)"
      by (intro Cons.IH) auto
    with Cons.prems(1) [of h] show ?thesis by auto
  qed
qed

lemma later_count_less:
  "h0 \<in> set hs \<Longrightarrow> e < ea h0 \<Longrightarrow> later_count hs (ea h0) < later_count hs e"
  unfolding later_count_def
  by (rule length_filter_less [where ?h0.0 = h0]) auto

lemma later_count_map:
  "(\<And>h. ea (g h) = ea h) \<Longrightarrow> later_count (map g hs) e = later_count hs e"
  by (simp add: later_count_def filter_map comp_def)

lemma label_move_potential:
  assumes d: "distinct (addrs t)"
    and x: "x \<in> set (items t)" "label_num (hdr x) \<noteq> - 1"
    and y: "y \<in> set (items t)" "label_num (hdr y) = - 1" "ea (hdr x) < ea (hdr y)"
    and l: "l \<noteq> - 1"
  shows "label_potential
           (update_at (item_addr x) (set_label (- 1)) (update_at (item_addr y) (set_label l) t))
         < label_potential t"
proof -
  let ?hs = "map hdr (items t)"
  let ?gy = "\<lambda>h. if addr h = item_addr y then h\<lparr>label_num := l\<rparr> else h"
  let ?gx = "\<lambda>h. if addr h = item_addr x then h\<lparr>label_num := - 1\<rparr> else h"
  let ?g = "\<lambda>h. ?gx (?gy h)"
  let ?t' = "update_at (item_addr x) (set_label (- 1)) (update_at (item_addr y) (set_label l) t)"
  let ?F = "\<lambda>h. if label_num h \<noteq> - 1 then later_count ?hs (ea h) else 0"
  from d have d1: "distinct (addrs (update_at (item_addr y) (set_label l) t))"
    by (simp add: update_set_label_addrs)
  have hs': "map hdr (items ?t') = map ?g ?hs"
    by (simp only: update_at_set_label_hdrs [OF d1] update_at_set_label_hdrs [OF d] map_map comp_def)
  have ea: "ea (?g h) = ea h" for h by simp
  have lc: "later_count (map ?g ?hs) e = later_count ?hs e" for e
    by (rule later_count_map) (rule ea)
  have pot': "label_potential ?t' = sum_list (map (\<lambda>h. ?F (?g h)) ?hs)"
    unfolding label_potential_def hs' lc by (simp add: comp_def)
  from d have dm: "distinct (map addr ?hs)" by (simp add: addrs_def comp_def)
  from dm have dh: "distinct ?hs" and ij: "inj_on addr (set ?hs)"
    unfolding distinct_map by blast+
  have inj: "h = h'" if "h \<in> set ?hs" "h' \<in> set ?hs" "addr h = addr h'" for h h'
    using ij that unfolding inj_on_def by blast
  have hx: "hdr x \<in> set ?hs" and hy: "hdr y \<in> set ?hs" using x(1) y(1) by auto
  from y(3) have xy: "hdr x \<noteq> hdr y" by auto
  with inj [OF hx hy] have axy: "item_addr x \<noteq> item_addr y" by auto
  let ?S = "set ?hs - {hdr x} - {hdr y}"
  have rest: "?F (?g h) = ?F h" if "h \<in> ?S" for h
  proof -
    from that inj [OF _ hx] inj [OF _ hy] have "addr h \<noteq> item_addr x" "addr h \<noteq> item_addr y"
      by auto
    then show ?thesis by simp
  qed
  have gx: "?F (?g (hdr x)) = 0" using axy by simp
  have gy: "?F (?g (hdr y)) = later_count ?hs (ea (hdr y))" using axy l by simp
  have fx: "?F (hdr x) = later_count ?hs (ea (hdr x))" using x(2) by simp
  have fy: "?F (hdr y) = 0" using y(2) by simp
  have split: "sum_list (map G ?hs) = G (hdr x) + G (hdr y) + sum G ?S" for G :: "citem_hdr \<Rightarrow> nat"
  proof -
    have "sum_list (map G ?hs) = sum G (set ?hs)"
      by (rule sum_list_distinct_conv_sum_set [OF dh])
    also have "\<dots> = G (hdr x) + sum G (set ?hs - {hdr x})"
      by (rule sum.remove) (use hx in simp_all)
    also have "sum G (set ?hs - {hdr x}) = G (hdr y) + sum G ?S"
      by (rule sum.remove) (use hy xy in simp_all)
    finally show ?thesis by simp
  qed
  have "sum (\<lambda>h. ?F (?g h)) ?S = sum ?F ?S" by (rule sum.cong) (simp_all only: rest)
  with split [of "\<lambda>h. ?F (?g h)"] split [of ?F] gx gy fx fy
  have "sum_list (map (\<lambda>h. ?F (?g h)) ?hs) + later_count ?hs (ea (hdr x)) =
        sum_list (map ?F ?hs) + later_count ?hs (ea (hdr y))"
    by simp
  moreover from later_count_less [OF hy y(3)]
  have "later_count ?hs (ea (hdr y)) < later_count ?hs (ea (hdr x))" .
  ultimately have "sum_list (map (\<lambda>h. ?F (?g h)) ?hs) < sum_list (map ?F ?hs)" by linarith
  with pot' show ?thesis by (simp add: label_potential_def)
qed

subsection \<open>The loop that cleans up the goto labels ends\<close>

lemma new_destination_props:
  assumes d: "distinct (addrs t)" and n: "new_destination t x = Some y"
  shows "y \<in> set (items t) \<and> ea (hdr x) < ea (hdr y)"
proof -
  from search_blocks_Some [OF n [unfolded new_destination_def]] obtain pre b post where
    b: "ancestors t (item_addr x) = pre @ b # post" "y \<in> set (children_of_parent b)"
       "ea (hdr x) < ea (hdr y)"
    by blast
  from b(1) ancestors_items [of t "item_addr x"] have bt: "b \<in> set (items t)" by auto
  from distinct_addrs_subtree [OF bt d] have "children_of_parent b = kids b"
    by (rule children_of_parent_kids)
  with b(2) have "y \<in> set (kids b)" by simp
  with bt have "y \<in> set (items t)" by (rule kid_in_items)
  with b(3) show ?thesis by simp
qed

lemma visit_item_cleaning_props:
  assumes inv: "clean_inv a (tree st)"
    and x: "x \<in> set (items (tree st))" "label_num (hdr x) \<noteq> - 1"
  shows "clean_inv a (tree (visit_item_cleaning x st)) \<and>
         pending (tree (visit_item_cleaning x st)) \<le> pending (tree st) \<and>
         fGotoCleaned (visit_item_cleaning x st) \<and>
         (visitingMode (visit_item_cleaning x st) = ChangingGotos \<or>
          (visitingMode (visit_item_cleaning x st) = visitingMode st \<and>
           label_potential (tree (visit_item_cleaning x st)) < label_potential (tree st)))"
proof (cases "new_destination (tree st) x")
  case None
  with changing_gotos_inv [OF inv, of "label_num (hdr x)" "- 1"] show ?thesis
    by (simp add: visit_item_cleaning_def Let_def)
next
  case (Some y)
  from inv have d: "distinct (addrs (tree st))" by (simp add: clean_inv_def)
  from new_destination_props [OF d Some]
  have y: "y \<in> set (items (tree st))" "ea (hdr x) < ea (hdr y)" by simp_all
  show ?thesis
  proof (cases "label_num (hdr y) \<noteq> - 1")
    case True
    with Some changing_gotos_inv [OF inv, of "label_num (hdr x)" "label_num (hdr y)"]
    show ?thesis by (simp add: visit_item_cleaning_def Let_def)
  next
    case False
    let ?t1 = "update_at (item_addr y) (set_label (label_num (hdr x))) (tree st)"
    let ?t2 = "update_at (item_addr x) (set_label (- 1)) ?t1"
    from update_set_label_inv [OF inv, of "item_addr y" "label_num (hdr x)"]
    have i1: "clean_inv a ?t1" "pending ?t1 \<le> pending (tree st)" by simp_all
    from update_set_label_inv [OF i1(1), of "item_addr x" "- 1"] i1(2)
    have i2: "clean_inv a ?t2" "pending ?t2 \<le> pending (tree st)" by simp_all
    from False have "label_num (hdr y) = - 1" by simp
    from label_move_potential [OF d x y(1) this y(2) x(2)]
    have "label_potential ?t2 < label_potential (tree st)" .
    with Some False i2 show ?thesis by (simp add: visit_item_cleaning_def Let_def)
  qed
qed

lemma item_at_in_items: "item_at t a = Some x \<Longrightarrow> x \<in> set (items t)"
  by (auto simp: item_at_def find_Some_iff)

lemma apply_to_doomed_props:
  assumes inv: "clean_inv a (tree st)" and fg: "fGotoCleaned st"
  shows "clean_inv a (tree (apply_to_doomed a (st\<lparr>fGotoCleaned := False\<rparr>))) \<and>
         pending (tree (apply_to_doomed a (st\<lparr>fGotoCleaned := False\<rparr>))) \<le> pending (tree st) \<and>
         cleaning_measure (apply_to_doomed a (st\<lparr>fGotoCleaned := False\<rparr>)) < cleaning_measure st"
proof -
  let ?st0 = "st\<lparr>fGotoCleaned := False\<rparr>"
  have inv0: "clean_inv a (tree ?st0)" using inv by simp
  have stay: "clean_inv a (tree ?st0) \<and> pending (tree ?st0) \<le> pending (tree st) \<and>
              cleaning_measure ?st0 < cleaning_measure st"
    using inv fg by (simp add: cleaning_measure_def)
  show ?thesis
  proof (cases "visitingMode st = CleaningUpGotoLabels")
    case True
    show ?thesis
    proof (cases "item_at (tree st) a")
      case None
      with True stay show ?thesis by (simp add: apply_to_doomed_def)
    next
      case (Some pItem)
      show ?thesis
      proof (cases "find (\<lambda>x. label_num (hdr x) \<noteq> - 1) (items pItem)")
        case None
        with True Some stay show ?thesis by (simp add: apply_to_doomed_def)
      next
        case (Some x)
        then have "x \<in> set (items pItem)" "label_num (hdr x) \<noteq> - 1"
          by (auto simp: find_Some_iff)
        with items_subtree [OF item_at_in_items [OF \<open>item_at (tree st) a = Some pItem\<close>]]
        have x: "x \<in> set (items (tree ?st0))" "label_num (hdr x) \<noteq> - 1" by auto
        have r: "apply_to_doomed a ?st0 = visit_item_cleaning x ?st0"
          using True Some \<open>item_at (tree st) a = Some pItem\<close> by (simp add: apply_to_doomed_def)
        from visit_item_cleaning_props [OF inv0 x] True fg
        show ?thesis unfolding r by (auto simp: cleaning_measure_def)
      qed
    qed
  next
    case False
    show ?thesis
    proof (cases "visitingMode st = ChangingGotos")
      case True
      with update_changing_gotos_inv [OF inv, of a "nOldLabelNumber st" "nNewLabelNumber st"] fg
      show ?thesis by (simp add: apply_to_doomed_def cleaning_measure_def)
    next
      case f: False
      with False stay show ?thesis by (simp add: apply_to_doomed_def)
    qed
  qed
qed

lemma cleaning_loop_terminates:
  "clean_inv a (tree st) \<Longrightarrow>
   \<exists>st'. cleaning_loop a st = Some st' \<and> clean_inv a (tree st') \<and>
         pending (tree st') \<le> pending (tree st)"
proof (induction "cleaning_measure st" arbitrary: st rule: less_induct)
  case less
  show ?case
  proof (cases "fGotoCleaned st")
    case False
    then have "cleaning_loop a st = Some st" by (subst cleaning_loop.simps) simp
    with less.prems show ?thesis by simp
  next
    case True
    let ?st1 = "apply_to_doomed a (st\<lparr>fGotoCleaned := False\<rparr>)"
    from apply_to_doomed_props [OF less.prems True]
    have p: "clean_inv a (tree ?st1)" "pending (tree ?st1) \<le> pending (tree st)"
      "cleaning_measure ?st1 < cleaning_measure st" by simp_all
    from less.hyps [OF p(3) p(1)] obtain st' where
      r: "cleaning_loop a ?st1 = Some st'" "clean_inv a (tree st')"
         "pending (tree st') \<le> pending (tree ?st1)" by blast
    from True r(1) have "cleaning_loop a st = Some st'" by (subst cleaning_loop.simps) simp
    with r p(2) show ?thesis by auto
  qed
qed

subsection \<open>A pass that prunes makes the tree smaller\<close>

lemma Doomed_prunable: "visit_item_pruning L x = Doomed \<Longrightarrow> prunable_op (item_op x)"
  by (cases "item_op x")
     (auto simp: visit_item_pruning_def is_expr_def prunable_op_def split: if_splits option.splits)

lemma sum_list_weight_erase:
  assumes "is_empty e"
  shows "sum_list (map weight (pre @ post)) < sum_list (map weight (pre @ e # post))"
  using assms by (simp add: weight_def erasable_def)

lemma pruning_pass_props:
  assumes inv: "prune_inv (tree st)"
  shows "\<exists>st'. pruning_pass L st = Some st' \<and> prune_inv (tree st') \<and>
           (fPruned st' \<longrightarrow> pending (tree st') < pending (tree st)) \<and>
           (\<not> fPruned st' \<longrightarrow> tree st' = tree st \<and> find_prunable L (tree st) = None)"
proof (cases "find_prunable L (tree st)")
  case None
  with inv show ?thesis by (simp add: pruning_pass_def Let_def)
next
  case (Some r)
  obtain x v where r: "r = (x, v)" by (cases r)
  from inv have d: "distinct (addrs (tree st))" and lf: "leaf_gotos (tree st)"
    by (simp_all add: prune_inv_def)
  from find_prunable_sound(1) [of L "tree st" x v] Some r
  have x: "x \<in> set (items (tree st))" and v: "visit_item_pruning L x = v"
    "v = Doomed \<or> (\<exists>ks. v = Erased ks)" by simp_all
  from x have ax: "item_addr x \<in> set (addrs (tree st))" by (rule item_addr_in_addrs)
  show ?thesis
  proof (cases "v = Doomed")
    case False
    with v(2) obtain ks where ks: "v = Erased ks" by blast
    with v(1) have "visit_item_pruning L x = Erased ks" by simp
    then have blk: "item_op x = cit_block" and "erase_first_empty (kids x) = Some ks"
      by (auto simp: visit_item_pruning_def split: if_splits option.splits)
    from erase_first_empty_Some [OF this(2)] obtain pre e post where
      e: "kids x = pre @ e # post" "ks = pre @ post" "is_empty e"
      by (auto simp: is_empty_def)
    let ?g = "\<lambda>b. Item (hdr b) ks"
    let ?t' = "update_at (item_addr x) ?g (tree st)"
    have same: "z = x" if "z \<in> set (items (tree st))" "item_addr z = item_addr x" for z
      using distinct_items_addr_inj [OF d that(1) x that(2)] .
    have xi: "x = Item (hdr x) (pre @ e # post)" using e(1) by (cases x) simp
    have dx: "distinct (addrs x)" by (rule distinct_addrs_subtree [OF x d])
    have gx: "set (addrs (?g x)) \<subseteq> set (addrs x) \<and> distinct (addrs (?g x))"
      using dx by (subst (asm) xi, subst xi) (auto simp: addrs_Item e(2))
    have lx: "leaf_gotos (?g x)"
      using leaf_gotos_subtree [OF lf x] blk
      by (subst (asm) xi) (auto simp: leaf_gotos_Item e(2))
    have p1: "pending x = sum_list (map weight (pre @ e # post))"
      using arg_cong [OF xi, of pending] blk by (simp add: pending_Item prunable_op_def)
    have p2: "pending (?g x) = sum_list (map weight (pre @ post))"
      using blk by (simp add: pending_Item prunable_op_def e(2))
    have w: "weight x = pending x" "weight (?g x) = pending (?g x)"
      using blk by (simp_all add: weight_def erasable_def is_empty_def)
    have px: "pending (?g x) < pending x \<and> weight (?g x) < weight x"
      unfolding w p1 p2 using sum_list_weight_erase [OF e(3), of pre post] by simp
    have "prune_inv ?t'"
      using update_at_addrs [of "tree st" "item_addr x" ?g, OF _ d]
        update_at_leaf_gotos [of "tree st" "item_addr x" ?g, OF _ lf] same gx lx
      by (auto simp: prune_inv_def)
    moreover have "pending ?t' < pending (tree st)"
      using update_at_pending_less [of "tree st" "item_addr x" ?g, OF _ ax] same px by auto
    moreover have "pruning_pass L st =
        Some (st\<lparr>fPruned := False, tree := ?t', fPruned := True\<rparr>)"
      using Some r ks by (simp add: pruning_pass_def Let_def)
    ultimately show ?thesis by simp
  next
    case True
    let ?a = "item_addr x"
    let ?st1 = "st\<lparr>fPruned := False, visitingMode := CleaningUpGotoLabels, fGotoCleaned := True\<rparr>"
    from True v(1) have "prunable_op (item_op x)" by (simp add: Doomed_prunable)
    with x have hp: "has_prunable ?a (tree st)" by (auto simp: has_prunable_def)
    with d lf have "clean_inv ?a (tree ?st1)" by (simp add: clean_inv_def)
    from cleaning_loop_terminates [OF this] obtain st2 where
      st2: "cleaning_loop ?a ?st1 = Some st2" "clean_inv ?a (tree st2)"
           "pending (tree st2) \<le> pending (tree st)" by auto
    from st2(2) have d2: "distinct (addrs (tree st2))" and lf2: "leaf_gotos (tree st2)"
      and hp2: "has_prunable ?a (tree st2)" by (simp_all add: clean_inv_def)
    from hp2 obtain x2 where x2: "x2 \<in> set (items (tree st2))" "item_addr x2 = ?a"
      "prunable_op (item_op x2)" by (auto simp: has_prunable_def)
    have same: "z = x2" if "z \<in> set (items (tree st2))" "item_addr z = ?a" for z
      using distinct_items_addr_inj [OF d2 that(1) x2(1)] that(2) x2(2) by simp
    let ?t' = "update_at ?a cleanup (tree st2)"
    have gx: "set (addrs (cleanup x2)) \<subseteq> set (addrs x2) \<and> distinct (addrs (cleanup x2))"
      by (cases x2) (simp add: cleanup_def addrs_Item)
    have lx: "leaf_gotos (cleanup x2)" by (simp add: cleanup_def leaf_gotos_Item)
    have px: "pending (cleanup x2) < pending x2 \<and> weight (cleanup x2) < weight x2"
      using x2(3) by (cases x2) (simp add: cleanup_def pending_Item weight_Item prunable_op_def)
    from x2 have ax2: "?a \<in> set (addrs (tree st2))" by (auto dest: item_addr_in_addrs)
    have "prune_inv ?t'"
      using update_at_addrs [of "tree st2" ?a cleanup, OF _ d2]
        update_at_leaf_gotos [of "tree st2" ?a cleanup, OF _ lf2] same gx lx
      by (auto simp: prune_inv_def)
    moreover have "pending ?t' < pending (tree st2)"
      using update_at_pending_less [of "tree st2" ?a cleanup, OF _ ax2] same px by auto
    moreover have "pruning_pass L st =
        Some (st2\<lparr>visitingMode := Pruning, tree := ?t', fPruned := True\<rparr>)"
      using Some r True st2(1) by (simp add: pruning_pass_def Let_def)
    ultimately show ?thesis using st2(3) by simp
  qed
qed

lemma pruning_loop_last_pass:
  "prune_inv (tree st) \<Longrightarrow>
   \<exists>k st' st0. pruning_loop L n st = Some (k, st') \<and> k \<le> n + pending (tree st) + 1 \<and>
      pruning_pass L st0 = Some st' \<and> tree st' = tree st0 \<and>
      \<not> fPruned st' \<and> find_prunable L (tree st') = None"
proof (induction "pending (tree st)" arbitrary: n st rule: less_induct)
  case less
  from pruning_pass_props [OF less.prems, of L] obtain st1 where
    p: "pruning_pass L st = Some st1" "prune_inv (tree st1)"
       "fPruned st1 \<longrightarrow> pending (tree st1) < pending (tree st)"
       "\<not> fPruned st1 \<longrightarrow> tree st1 = tree st \<and> find_prunable L (tree st) = None"
    by blast
  show ?case
  proof (cases "fPruned st1")
    case False
    with p(1) have "pruning_loop L n st = Some (Suc n, st1)"
      by (subst pruning_loop.simps) simp
    with False p(1,4) show ?thesis
      by (intro exI [of _ "Suc n"] exI [of _ st1] exI [of _ st]) simp
  next
    case True
    with p(3) have dec: "pending (tree st1) < pending (tree st)" by simp
    from less.hyps [OF dec p(2), of "Suc n"] obtain k st' st0 where
      r: "pruning_loop L (Suc n) st1 = Some (k, st')" "k \<le> Suc n + pending (tree st1) + 1"
         "pruning_pass L st0 = Some st'" "tree st' = tree st0"
         "\<not> fPruned st'" "find_prunable L (tree st') = None" by blast
    from True p(1) r(1) have "pruning_loop L n st = Some (k, st')"
      by (subst pruning_loop.simps) simp
    with r dec show ?thesis by (intro exI [of _ k] exI [of _ st'] exI [of _ st0]) auto
  qed
qed

text \<open>
  C8: on the body of a well-formed function both loops of \<open>Detox\<close> end, whatever the
  environment and whatever the legitimacy set handed to the pruner. The marking loop ends
  with a pass that leaves \<open>vectorLegitItems\<close> as it was, the pruning loop with a pass that
  deletes nothing and after which the traversal finds nothing to prune, and each loop makes
  at most as many passes as the body has items. So \<open>Detox\<close> returns or stops at the null
  bitmap; it does not run forever.
\<close>

theorem fixed_point_loops_terminate:
  assumes wf: "wf_ctree (body f)"
  shows "(\<exists>k s' s0. marking_loop E f 0 fliv_init = Some (k, s') \<and>
            k \<le> length (items (body f)) \<and>
            s' = marking_pass E f s0 \<and> vectorLegitItems s' = vectorLegitItems s0 \<and>
            \<not> fNewLegitItemFound s') \<and>
         (\<exists>j p p0. pruning_loop L 0 (piv_init (body f)) = Some (j, p) \<and>
            j \<le> length (items (body f)) \<and>
            pruning_pass L p0 = Some p \<and> tree p = tree p0 \<and> \<not> fPruned p \<and>
            find_prunable L (tree p) = None) \<and>
         (\<exists>r. Detox E f = Some r)"
proof -
  let ?N = "length (items (body f))"
  from wf have d: "distinct (addrs (body f))" and blk: "item_op (body f) = cit_block"
    and ex: "\<forall>t \<in> set (items (body f)). prunable_op (item_op t) \<longrightarrow> (\<exists>k \<in> set (kids t). is_expr k)"
    and lf: "leaf_gotos (body f)"
    by (simp_all add: wf_ctree_def)
  have N: "1 \<le> ?N" by (cases "body f") simp
  have mark: "\<exists>k s' s0. marking_loop E f 0 fliv_init = Some (k, s') \<and> k \<le> ?N \<and>
            s' = marking_pass E f s0 \<and> vectorLegitItems s' = vectorLegitItems s0 \<and>
            \<not> fNewLegitItemFound s'" for E
  proof -
    have "set (vectorLegitItems fliv_init) \<subseteq> set (addrs (body f))"
      "two_marks (body f) fliv_init"
      by (simp_all add: fliv_init_def two_marks_def)
    from marking_loop_terminates [OF d blk this, of E 0] obtain k s' s0 where
      r: "marking_loop E f 0 fliv_init = Some (k, s')"
         "k \<le> 0 + passes_left (body f) fliv_init + 1"
         "s' = marking_pass E f s0" "\<not> fNewLegitItemFound s'"
         "vectorLegitItems s' = vectorLegitItems s0"
      by blast
    from r(2) N have "k \<le> ?N" by (simp add: passes_left_def fliv_init_def)
    with r show ?thesis by blast
  qed
  have prune: "\<exists>j p p0. pruning_loop L 0 (piv_init (body f)) = Some (j, p) \<and> j \<le> ?N \<and>
            pruning_pass L p0 = Some p \<and> tree p = tree p0 \<and> \<not> fPruned p \<and>
            find_prunable L (tree p) = None" for L
  proof -
    from d lf have "prune_inv (tree (piv_init (body f)))"
      by (simp add: prune_inv_def piv_init_def)
    from pruning_loop_last_pass [OF this, of L 0] obtain j p p0 where
      r: "pruning_loop L 0 (piv_init (body f)) = Some (j, p)"
         "j \<le> 0 + pending (tree (piv_init (body f))) + 1"
         "pruning_pass L p0 = Some p" "tree p = tree p0" "\<not> fPruned p"
         "find_prunable L (tree p) = None"
      by blast
    from blk have "\<not> prunable_op (item_op (body f))" by (simp add: prunable_op_def)
    with pending_bound [OF ex] have "pending (body f) + 1 \<le> ?N" by simp
    with r(2) have "j \<le> ?N" by (simp add: piv_init_def)
    with r show ?thesis by blast
  qed
  have "\<exists>r. Detox E f = Some r"
  proof -
    from mark [of E] obtain k s' where m: "marking_loop E f 0 fliv_init = Some (k, s')" by blast
    from prune [of "vectorLegitItems s'"] obtain j p where
      "pruning_loop (vectorLegitItems s') 0 (piv_init (body f)) = Some (j, p)" by blast
    with m show ?thesis by (simp add: Detox_def)
  qed
  with mark [of E] prune [of L] show ?thesis by blast
qed

theorem fixed_point_loops_terminate_witness:
  "wf_ctree last_body \<and>
   marking_loop env_ok \<lparr>body = last_body, lvars = [junk_var]\<rparr> 0 fliv_init =
     Some (2, \<lparr>fInitialized = True, vectorDescendantsMarkedLegit = [],
               fNewLegitItemFound = False, vectorLegitItems = [2, 1],
               afVariableIsLegit = Some [False]\<rparr>) \<and>
   2 \<le> length (items last_body) \<and>
   pruning_loop [2, 1] 0 (piv_init last_body) =
     Some (4, (piv_init (Item (mk_hdr 1 cit_block 0 (- 1)) []))\<lparr>nOldLabelNumber := 7\<rparr>) \<and>
   4 \<le> length (items last_body) \<and>
   length (items last_body) = 4"
proof -
  have wf: "wf_ctree (body \<lparr>body = last_body, lvars = [junk_var]\<rparr>)"
    by code_simp
  have e: "marking_loop env_ok \<lparr>body = last_body, lvars = [junk_var]\<rparr> 0 fliv_init =
     Some (2, \<lparr>fInitialized = True, vectorDescendantsMarkedLegit = [],
               fNewLegitItemFound = False, vectorLegitItems = [2, 1],
               afVariableIsLegit = Some [False]\<rparr>)"
    "pruning_loop [2, 1] 0 (piv_init last_body) =
     Some (4, (piv_init (Item (mk_hdr 1 cit_block 0 (- 1)) []))\<lparr>nOldLabelNumber := 7\<rparr>)"
    "length (items last_body) = 4"
    by code_simp+
  from fixed_point_loops_terminate [OF wf, of env_ok "[2, 1]"] e wf show ?thesis
    by auto
qed

section \<open>Detox on its own result\<close>

text \<open>The body below is one that the decompiler can build.\<close>

lemma goto_junk_body_wf: "wf_ctree goto_junk_body"
  by code_simp

text \<open>
  C9: \<open>Detox\<close> is idempotent, the second of two runs changes nothing. The code breaks this
  on the body \<open>if (v) { goto L; } f(); L: s;\<close> where the statement \<open>s\<close> is junk. In the
  first run the goto keeps the \<open>if\<close> legitimate and the condition marks \<open>v\<close>; \<open>s\<close> is
  cleaned up, no statement follows it to take its label, so \<open>ChangingGotos\<close> mode rewrites
  the goto: the return that lines 1002 to 1009 put in its place is emptied by the
  \<open>cleanup\<close> of line 1010 and erased from its block on a later pass. The first run returns
  \<open>if (v) { } f();\<close> with \<open>v\<close> in use. In the second run the \<open>if\<close> holds nothing
  legitimate any more: it is removed, and the used flag of \<open>v\<close> is cleared.
\<close>

theorem Detox_second_run_prunes:
  "changing_gotos 7 (- 1) (Item ((mk_hdr 5 cit_goto 14 (- 1))\<lparr>goto_label := 7\<rparr>) []) =
     Item (mk_hdr 5 cit_empty 14 (- 1)) [] \<and>
   Detox env_ok \<lparr>body = goto_junk_body, lvars = [junk_var]\<rparr> =
     Some (Inr \<lparr>body = Item (mk_hdr 1 cit_block 0 (- 1))
                        [Item (mk_hdr 2 cit_if 10 (- 1))
                           [Item (mk_hdr 3 cot_var 10 (- 1)) [],
                            Item (mk_hdr 4 cit_block 12 (- 1)) []],
                         Item (mk_hdr 6 cit_expr 16 (- 1))
                           [Item (mk_hdr 7 cot_call 16 (- 1))
                              [Item (mk_hdr 8 cot_obj 16 (- 1)) []]]],
                lvars = [junk_var]\<rparr>) \<and>
   Detox env_ok \<lparr>body = Item (mk_hdr 1 cit_block 0 (- 1))
                        [Item (mk_hdr 2 cit_if 10 (- 1))
                           [Item (mk_hdr 3 cot_var 10 (- 1)) [],
                            Item (mk_hdr 4 cit_block 12 (- 1)) []],
                         Item (mk_hdr 6 cit_expr 16 (- 1))
                           [Item (mk_hdr 7 cot_call 16 (- 1))
                              [Item (mk_hdr 8 cot_obj 16 (- 1)) []]]],
                lvars = [junk_var]\<rparr> =
     Some (Inr \<lparr>body = Item (mk_hdr 1 cit_block 0 (- 1))
                        [Item (mk_hdr 6 cit_expr 16 (- 1))
                           [Item (mk_hdr 7 cot_call 16 (- 1))
                              [Item (mk_hdr 8 cot_obj 16 (- 1)) []]]],
                lvars = [junk_var\<lparr>used := False\<rparr>]\<rparr>)"
  by code_simp

section \<open>The loop over the parents\<close>

text \<open>
  On a tree with distinct addresses, \<open>find_parent_of\<close> at an item returns the next item of
  its path to the root, and the path of that item is the rest of the path: the loop
  \<open>pCurrentItem = find_parent_of(pCurrentItem)\<close> runs through \<open>ancestors\<close>.
\<close>

lemma path_to_empty: "a \<notin> set (addrs t) \<Longrightarrow> path_to a t = []"
proof (induction a t rule: path_to.induct)
  case (1 a h ks)
  from "1.prems" have h: "addr h \<noteq> a" by (auto simp: addrs_Item)
  have "path_to a k = []" if "k \<in> set ks" for k
    using "1.IH" [OF h that] "1.prems" that by (auto simp: addrs_Item)
  then have "filter (\<lambda>p. p \<noteq> []) (map (path_to a) ks) = []"
    by (auto simp: filter_empty_conv)
  with h show ?case by simp
qed

lemma kid_unique:
  assumes d: "distinct (addrs (Item h ks))"
    and k1: "k1 \<in> set ks" "a \<in> set (addrs k1)"
    and k2: "k2 \<in> set ks" "a \<in> set (addrs k2)"
  shows "k1 = k2"
proof -
  from d have "distinct (concat (map addrs ks))" by (simp add: addrs_Item)
  then show ?thesis using k1 k2
  proof (induction ks)
    case Nil
    then show ?case by simp
  next
    case (Cons k ks)
    from Cons.prems(1) have d': "distinct (concat (map addrs ks))"
      and dis: "\<And>k'. k' \<in> set ks \<Longrightarrow> set (addrs k) \<inter> set (addrs k') = {}"
      by auto
    show ?case
    proof (cases "k1 = k")
      case True
      show ?thesis
      proof (cases "k2 = k")
        case True
        with \<open>k1 = k\<close> show ?thesis by simp
      next
        case False
        with Cons.prems(4) have "k2 \<in> set ks" by simp
        from dis [OF this] True Cons.prems(3,5) show ?thesis by auto
      qed
    next
      case False
      with Cons.prems(2) have k1s: "k1 \<in> set ks" by simp
      show ?thesis
      proof (cases "k2 = k")
        case True
        from dis [OF k1s] True Cons.prems(3,5) show ?thesis by auto
      next
        case f2: False
        with Cons.prems(4) have "k2 \<in> set ks" by simp
        from Cons.IH [OF d' k1s Cons.prems(3) this Cons.prems(5)] show ?thesis .
      qed
    qed
  qed
qed

lemma items_antisym:
  assumes "distinct (addrs t)" "x \<in> set (items t)" "y \<in> set (items x)" "x \<in> set (items y)"
  shows "x = y"
proof -
  have "length (items y) \<le> length (items x)" if "y \<in> set (items x)" for x y :: citem_t
    using that
  proof (induction x rule: items.induct)
    case (1 h ks)
    show ?case
    proof (cases "y = Item h ks")
      case True
      then show ?thesis by simp
    next
      case False
      with "1.prems" obtain k where k: "k \<in> set ks" "y \<in> set (items k)" by auto
      from "1.IH" [OF k] have "length (items y) \<le> length (items k)" .
      also from k(1) have "\<dots> \<le> length (concat (map items ks))"
        by (induction ks) auto
      finally show ?thesis by simp
    qed
  qed
  note len = this
  show ?thesis
  proof (cases x)
    case (Item h ks)
    show ?thesis
    proof (rule ccontr)
      assume ne: "x \<noteq> y"
      with assms(3) Item obtain k where k: "k \<in> set ks" "y \<in> set (items k)" by auto
      from len [OF k(2)] have "length (items y) \<le> length (items k)" .
      also from k(1) have "length (items k) \<le> length (concat (map items ks))"
        by (induction ks) auto
      also have "\<dots> < length (items x)" using Item by simp
      finally have "length (items y) < length (items x)" .
      with len [OF assms(4)] show False by simp
    qed
  qed
qed

lemma path_to_self:
  assumes "distinct (addrs t)" "y \<in> set (items t)"
  shows "set (path_to (item_addr y) t) = {x \<in> set (items t). y \<in> set (items x)} \<and>
         hd (path_to (item_addr y) t) = y \<and> path_to (item_addr y) t \<noteq> []"
  using assms
proof (induction t rule: items.induct)
  case (1 h ks)
  let ?t = "Item h ks"
  let ?a = "item_addr y"
  show ?case
  proof (cases "addr h = ?a")
    case True
    from distinct_items_addr_inj [OF "1.prems"(1) "1.prems"(2) items_self [of ?t]] True
    have y: "y = ?t" by simp
    have "x = ?t" if "x \<in> set (items ?t)" "?t \<in> set (items x)" for x
      using items_antisym [OF "1.prems"(1) that(1) that(2)] that
      by (metis "1.prems"(1) items_antisym items_self)
    with True y show ?thesis by (auto intro: items_self)
  next
    case False
    with "1.prems"(2) obtain k where k: "k \<in> set ks" "y \<in> set (items k)" by auto
    then have ak: "?a \<in> set (addrs k)" by (auto simp: addrs_def)
    have dk: "distinct (addrs k)" by (rule distinct_addrs_kid [OF "1.prems"(1) k(1)])
    have other: "path_to ?a k' = []" if "k' \<in> set ks" "k' \<noteq> k" for k'
    proof (rule path_to_empty)
      show "?a \<notin> set (addrs k')"
        using kid_unique [OF "1.prems"(1) that(1) _ k(1) ak] that(2) by auto
    qed
    from "1.IH" [OF k(1) dk k(2)]
    have ih: "set (path_to ?a k) = {x \<in> set (items k). y \<in> set (items x)}"
      "hd (path_to ?a k) = y" "path_to ?a k \<noteq> []" by simp_all
    have "\<forall>p \<in> set (filter (\<lambda>p. p \<noteq> []) (map (path_to ?a) ks)). p = path_to ?a k"
      using other by auto
    moreover have "filter (\<lambda>p. p \<noteq> []) (map (path_to ?a) ks) \<noteq> []"
      using k(1) ih(3) by (auto simp: filter_empty_conv)
    ultimately obtain ps where
      f: "filter (\<lambda>p. p \<noteq> []) (map (path_to ?a) ks) = path_to ?a k # ps"
      by (cases "filter (\<lambda>p. p \<noteq> []) (map (path_to ?a) ks)") auto
    with False have p: "path_to ?a ?t = path_to ?a k @ [?t]" by simp
    have "{x \<in> set (items ?t). y \<in> set (items x)} =
          insert ?t {x \<in> set (items k). y \<in> set (items x)}"
    proof (intro set_eqI iffI)
      fix x assume "x \<in> {x \<in> set (items ?t). y \<in> set (items x)}"
      then have x: "x \<in> set (items ?t)" "y \<in> set (items x)" by simp_all
      show "x \<in> insert ?t {x \<in> set (items k). y \<in> set (items x)}"
      proof (cases "x = ?t")
        case True
        then show ?thesis by simp
      next
        case False
        with x(1) obtain k' where k': "k' \<in> set ks" "x \<in> set (items k')" by auto
        from items_subtree [OF k'(2)] x(2) have "?a \<in> set (addrs k')" by (auto simp: addrs_def)
        from kid_unique [OF "1.prems"(1) k'(1) this k(1) ak] k'(2) x(2) show ?thesis by simp
      qed
    next
      fix x assume "x \<in> insert ?t {x \<in> set (items k). y \<in> set (items x)}"
      with k "1.prems"(2) show "x \<in> {x \<in> set (items ?t). y \<in> set (items x)}" by auto
    qed
    with p ih show ?thesis by auto
  qed
qed

lemma chain_is_path:
  assumes "distinct (addrs t)" "y \<in> set (items t)"
  shows "y # ancestors t (item_addr y) = path_to (item_addr y) t"
  using path_to_self [OF assms] by (cases "path_to (item_addr y) t") (auto simp: ancestors_def)

lemma first_path_simps:
  "first_path a [] = []"
  "first_path a (k # ks) = (if path_to a k \<noteq> [] then path_to a k else first_path a ks)"
  by (simp_all add: first_path_def)

lemma path_to_first_path:
  "path_to a (Item h ks) =
     (if addr h = a then [Item h ks]
      else if first_path a ks = [] then [] else first_path a ks @ [Item h ks])"
proof (cases "filter (\<lambda>p. p \<noteq> []) (map (path_to a) ks)")
  case Nil
  then show ?thesis by (simp add: first_path_def)
next
  case (Cons p ps)
  then have "p \<in> set (filter (\<lambda>p. p \<noteq> []) (map (path_to a) ks))" by simp
  then have "p \<noteq> []" by simp
  with Cons show ?thesis by (simp add: first_path_def)
qed

lemma first_path_kid:
  assumes d: "distinct (addrs (Item h ks))" and k: "k \<in> set ks" and a: "a \<in> set (addrs k)"
  shows "first_path a ks = path_to a k"
proof -
  have other: "path_to a k' = []" if "k' \<in> set ks" "k' \<noteq> k" for k'
  proof (rule path_to_empty)
    show "a \<notin> set (addrs k')"
      using kid_unique [OF d that(1) _ k a] that(2) by auto
  qed
  from path_to_nonempty [OF a] have ne: "path_to a k \<noteq> []" .
  from k other ne show ?thesis
  proof (induction ks)
    case Nil
    then show ?case by simp
  next
    case (Cons k0 ks)
    show ?case
    proof (cases "k0 = k")
      case True
      with Cons.prems(3) show ?thesis by (simp add: first_path_simps)
    next
      case False
      with Cons.prems(1) have "k \<in> set ks" by simp
      moreover from Cons.prems(2) [of k0] False have "path_to a k0 = []" by simp
      ultimately show ?thesis using Cons.IH Cons.prems(2,3) by (simp add: first_path_simps)
    qed
  qed
qed

lemma path_to_tail:
  "distinct (addrs t) \<Longrightarrow> path_to a t = x # p # ps \<Longrightarrow> path_to (item_addr p) t = p # ps"
proof (induction t arbitrary: x p ps rule: items.induct)
  case (1 h ks)
  let ?t = "Item h ks"
  from "1.prems"(2) have na: "addr h \<noteq> a" by (auto split: if_splits)
  with "1.prems"(2) have fp: "first_path a ks \<noteq> []"
    and e: "first_path a ks @ [?t] = x # p # ps"
    by (auto simp: path_to_first_path simp del: path_to.simps split: if_splits)
  from fp have "a \<in> (\<Union>k \<in> set ks. set (addrs k))"
  proof (induction ks)
    case Nil
    then show ?case by (simp add: first_path_simps)
  next
    case (Cons k ks)
    then show ?case using path_to_empty [of a k]
      by (cases "path_to a k = []") (auto simp: first_path_simps)
  qed
  then obtain k where k: "k \<in> set ks" "a \<in> set (addrs k)" by auto
  note f = first_path_kid [OF "1.prems"(1) k]
  have dk: "distinct (addrs k)" by (rule distinct_addrs_kid [OF "1.prems"(1) k(1)])
  from e f have e': "path_to a k @ [?t] = x # p # ps" by simp
  show ?case
  proof (cases "path_to a k")
    case Nil
    with path_to_nonempty [OF k(2)] show ?thesis by simp
  next
    case (Cons x0 r)
    show ?thesis
    proof (cases r)
      case Nil
      with Cons e' have "p = ?t" "ps = []" by simp_all
      then show ?thesis by simp
    next
      case c2: (Cons p0 r0)
      with Cons e' have p: "p = p0" and ps: "ps = r0 @ [?t]" by simp_all
      from "1.IH" [OF k(1) dk, of x0 p0 r0] Cons c2
      have ih: "path_to (item_addr p0) k = p0 # r0" by simp
      have "p0 \<in> set (path_to a k)" using Cons c2 by simp
      with path_to_items [of a k] have pk: "p0 \<in> set (items k)" by auto
      then have ak: "item_addr p0 \<in> set (addrs k)" by (auto simp: addrs_def)
      with kid_addrs_not_root [OF "1.prems"(1) k(1)] have nh: "addr h \<noteq> item_addr p0" by auto
      from first_path_kid [OF "1.prems"(1) k(1) ak] ih
      have "first_path (item_addr p0) ks = p0 # r0" by simp
      with nh p ps show ?thesis by (simp add: path_to_first_path del: path_to.simps)
    qed
  qed
qed

lemma find_parent_of_ancestors:
  assumes "distinct (addrs t)" "y \<in> set (items t)"
  shows "case find_parent_of t (item_addr y) of
           None \<Rightarrow> ancestors t (item_addr y) = []
         | Some p \<Rightarrow> ancestors t (item_addr y) = p # ancestors t (item_addr p)"
proof -
  from chain_is_path [OF assms] have c: "path_to (item_addr y) t = y # ancestors t (item_addr y)"
    by simp
  show ?thesis
  proof (cases "ancestors t (item_addr y)")
    case Nil
    with c show ?thesis by (simp add: find_parent_of_def)
  next
    case (Cons p ps)
    with c have e: "path_to (item_addr y) t = y # p # ps" by simp
    from path_to_tail [OF assms(1) e] have "ancestors t (item_addr p) = ps"
      by (simp add: ancestors_def)
    with e Cons show ?thesis by (simp add: find_parent_of_def)
  qed
qed

end
